theory Spec2Isabelle
  imports Complex_Main "HOL-Library.Multiset"
begin

section \<open>Data model\<close>

text \<open>
  The packing engine of \<^verbatim>\<open>utils/packingAlgorithm.ts\<close> works on JavaScript numbers.
  They are modelled as \<^typ>\<open>real\<close>: the data model speaks of real dimensions in
  millimetres, and every operation of the engine is an addition, a subtraction, a
  product, a comparison, \<^verbatim>\<open>Math.max\<close>, \<^verbatim>\<open>Math.abs\<close> or \<^verbatim>\<open>Math.sin\<close>.
  Rounding, \<^verbatim>\<open>NaN\<close> and the infinities of IEEE arithmetic are outside the model.

  Field names follow the source; a suffix is added where the name is a constant of
  HOL already (\<^verbatim>\<open>length\<close>, \<^verbatim>\<open>id\<close>) or would capture a variable name
  (\<^verbatim>\<open>x\<close>, \<^verbatim>\<open>y\<close>, \<^verbatim>\<open>z\<close>, \<^verbatim>\<open>l\<close>, \<^verbatim>\<open>h\<close>, \<^verbatim>\<open>w\<close>).
\<close>

record Dimensions =
  length_dim :: real
  width_dim :: real
  height_dim :: real

type_synonym Position = "real \<times> real \<times> real"

definition pos_x :: "Position \<Rightarrow> real" where
  "pos_x p = fst p"

definition pos_y :: "Position \<Rightarrow> real" where
  "pos_y p = fst (snd p)"

definition pos_z :: "Position \<Rightarrow> real" where
  "pos_z p = snd (snd p)"

text \<open>
  \<^verbatim>\<open>CargoItem\<close>. The optional fields \<^verbatim>\<open>subDrawingNo\<close>, \<^verbatim>\<open>subItems\<close> and
  \<^verbatim>\<open>isGroup\<close> are read by no function of the engine and are copied unchanged by every
  object spread; they are left out.
\<close>

record CargoItem =
  item_id :: string
  drawingNo :: string
  dimensions :: Dimensions
  position :: Position
  color :: string
  weight :: real
  selected :: bool
  isValid :: bool

record Box =
  box_x :: real
  box_y :: real
  box_z :: real
  box_l :: real
  box_h :: real
  box_w :: real

section \<open>Geometry primitives\<close>

definition boxIntersect :: "Box \<Rightarrow> Box \<Rightarrow> bool" where
  "boxIntersect a b \<longleftrightarrow>
     box_x a < box_x b + box_l b \<and>
     box_x a + box_l a > box_x b \<and>
     box_y a < box_y b + box_h b \<and>
     box_y a + box_h a > box_y b \<and>
     box_z a < box_z b + box_w b \<and>
     box_z a + box_w a > box_z b"

definition contains :: "Box \<Rightarrow> Box \<Rightarrow> bool" where
  "contains outer inner \<longleftrightarrow>
     box_x outer \<le> box_x inner \<and>
     box_y outer \<le> box_y inner \<and>
     box_z outer \<le> box_z inner \<and>
     box_x outer + box_l outer \<ge> box_x inner + box_l inner \<and>
     box_y outer + box_h outer \<ge> box_y inner + box_h inner \<and>
     box_z outer + box_w outer \<ge> box_z inner + box_w inner"

section \<open>Array.prototype.sort\<close>

text \<open>
  \<^verbatim>\<open>sort\<close> with a comparator is modelled as the stable insertion sort: an element
  goes in front of the first element it does not compare greater than. For a consistent
  comparator every stable sort returns this list. For an inconsistent one the order is
  left to the engine by the language standard; whatever the order, the result is a
  permutation of the input, which is all that the properties of the trial runner below
  depend on (they are proved for an arbitrary item order first).
\<close>

fun insertBy :: "('a \<Rightarrow> 'a \<Rightarrow> real) \<Rightarrow> 'a \<Rightarrow> 'a list \<Rightarrow> 'a list" where
  "insertBy cmp a [] = [a]"
| "insertBy cmp a (b # bs) = (if cmp a b \<le> 0 then a # b # bs else b # insertBy cmp a bs)"

definition sortBy :: "('a \<Rightarrow> 'a \<Rightarrow> real) \<Rightarrow> 'a list \<Rightarrow> 'a list" where
  "sortBy cmp xs = foldr (insertBy cmp) xs []"

section \<open>Collision detection and snapping\<close>

record CollisionTarget =
  t_x :: real
  t_y :: real
  t_z :: real
  t_l :: real
  t_h :: real
  t_w :: real
  t_id :: string

definition epsilon :: real where
  "epsilon = 1"

text \<open>The \<^verbatim>\<open>overlap\<close> expression of \<^verbatim>\<open>checkCollisionWithCoords\<close>.\<close>

definition overlap :: "CollisionTarget \<Rightarrow> CargoItem \<Rightarrow> bool" where
  "overlap target other \<longleftrightarrow>
     (let ix1 = t_x target; iy1 = t_y target; iz1 = t_z target;
          ix2 = ix1 + t_l target; iy2 = iy1 + t_h target; iz2 = iz1 + t_w target;
          ox1 = pos_x (position other); oy1 = pos_y (position other);
          oz1 = pos_z (position other);
          ox2 = ox1 + length_dim (dimensions other);
          oy2 = oy1 + height_dim (dimensions other);
          oz2 = oz1 + width_dim (dimensions other)
      in ix1 < ox2 - epsilon \<and> ix2 > ox1 + epsilon \<and>
         iy1 < oy2 - epsilon \<and> iy2 > oy1 + epsilon \<and>
         iz1 < oz2 - epsilon \<and> iz2 > oz1 + epsilon)"

text \<open>The loop over \<^verbatim>\<open>others\<close>, with its \<^verbatim>\<open>continue\<close> and its early return.\<close>

fun overlapsAny :: "CollisionTarget \<Rightarrow> CargoItem list \<Rightarrow> bool" where
  "overlapsAny target [] = False"
| "overlapsAny target (other # others) =
     (if item_id other = t_id target then overlapsAny target others
      else if overlap target other then True
      else overlapsAny target others)"

definition checkCollisionWithCoords ::
    "CollisionTarget \<Rightarrow> CargoItem list \<Rightarrow> Dimensions \<Rightarrow> bool" where
  "checkCollisionWithCoords target others container =
     (if t_x target < 0 \<or> t_y target < 0 \<or> t_z target < 0 then True
      else overlapsAny target others)"

definition targetOf :: "CargoItem \<Rightarrow> CollisionTarget" where
  "targetOf item =
     \<lparr>t_x = pos_x (position item), t_y = pos_y (position item), t_z = pos_z (position item),
      t_l = length_dim (dimensions item), t_h = height_dim (dimensions item),
      t_w = width_dim (dimensions item), t_id = item_id item\<rparr>"

definition checkCollision :: "CargoItem \<Rightarrow> CargoItem list \<Rightarrow> Dimensions \<Rightarrow> bool" where
  "checkCollision item others container =
     checkCollisionWithCoords (targetOf item) others container"

text \<open>
  \<^verbatim>\<open>getSnappingPosition\<close>: the three snaps to the origin, then one pass over
  \<^verbatim>\<open>others\<close>; every test reads the coordinate as the tests before it left it.
\<close>

definition snapOrigin :: "real \<Rightarrow> real \<Rightarrow> real" where
  "snapOrigin threshold v = (if \<bar>v\<bar> < threshold then 0 else v)"

definition snapX :: "real \<Rightarrow> Dimensions \<Rightarrow> CargoItem \<Rightarrow> real \<Rightarrow> real" where
  "snapX threshold dims other newX =
     (let ox = pos_x (position other); ol = length_dim (dimensions other);
          x1 = (if \<bar>newX - (ox + ol)\<bar> < threshold then ox + ol else newX);
          x2 = (if \<bar>(x1 + length_dim dims) - ox\<bar> < threshold then ox - length_dim dims else x1);
          x3 = (if \<bar>x2 - ox\<bar> < threshold then ox else x2);
          x4 = (if \<bar>(x3 + length_dim dims) - (ox + ol)\<bar> < threshold
                then ox + ol - length_dim dims else x3)
      in x4)"

definition snapY :: "real \<Rightarrow> Dimensions \<Rightarrow> CargoItem \<Rightarrow> real \<Rightarrow> real" where
  "snapY threshold dims other newY =
     (let oy = pos_y (position other); oh = height_dim (dimensions other);
          y1 = (if \<bar>newY - (oy + oh)\<bar> < threshold then oy + oh else newY);
          y2 = (if \<bar>(y1 + height_dim dims) - oy\<bar> < threshold then oy - height_dim dims else y1)
      in y2)"

definition snapZ :: "real \<Rightarrow> Dimensions \<Rightarrow> CargoItem \<Rightarrow> real \<Rightarrow> real" where
  "snapZ threshold dims other newZ =
     (let oz = pos_z (position other); ow = width_dim (dimensions other);
          z1 = (if \<bar>newZ - (oz + ow)\<bar> < threshold then oz + ow else newZ);
          z2 = (if \<bar>(z1 + width_dim dims) - oz\<bar> < threshold then oz - width_dim dims else z1);
          z3 = (if \<bar>z2 - oz\<bar> < threshold then oz else z2);
          z4 = (if \<bar>(z3 + width_dim dims) - (oz + ow)\<bar> < threshold
                then oz + ow - width_dim dims else z3)
      in z4)"

fun snapLoop :: "real \<Rightarrow> Dimensions \<Rightarrow> string \<Rightarrow> CargoItem list \<Rightarrow> Position \<Rightarrow> Position" where
  "snapLoop threshold dims ident [] p = p"
| "snapLoop threshold dims ident (other # others) p =
     (if item_id other = ident then snapLoop threshold dims ident others p
      else snapLoop threshold dims ident others
             (snapX threshold dims other (pos_x p),
              snapY threshold dims other (pos_y p),
              snapZ threshold dims other (pos_z p)))"

definition getSnappingPosition ::
    "Position \<Rightarrow> Dimensions \<Rightarrow> CargoItem list \<Rightarrow> string \<Rightarrow> real \<Rightarrow> Position" where
  "getSnappingPosition currentPos dims others ident threshold =
     snapLoop threshold dims ident others
       (snapOrigin threshold (pos_x currentPos),
        snapOrigin threshold (pos_y currentPos),
        snapOrigin threshold (pos_z currentPos))"

section \<open>Staging arranger\<close>

definition spacing :: real where
  "spacing = 100"

definition stagingWidthLimit :: real where
  "stagingWidthLimit = 15000"

definition stagingZStart :: "Dimensions \<Rightarrow> real" where
  "stagingZStart container = width_dim container + 1500"

text \<open>
  The callback of \<^verbatim>\<open>items.map\<close> updates the three variables \<^verbatim>\<open>currentX\<close>,
  \<^verbatim>\<open>currentZ\<close> and \<^verbatim>\<open>maxZInRow\<close> of the enclosing function; they are passed along.
\<close>

fun stagingLoop :: "real \<Rightarrow> real \<Rightarrow> real \<Rightarrow> CargoItem list \<Rightarrow> CargoItem list" where
  "stagingLoop currentX currentZ maxZInRow [] = []"
| "stagingLoop currentX currentZ maxZInRow (item # rest) =
     (let wrap = currentX + length_dim (dimensions item) > stagingWidthLimit;
          currentX1 = (if wrap then 0 else currentX);
          currentZ1 = (if wrap then currentZ + (maxZInRow + spacing) else currentZ);
          maxZInRow1 = (if wrap then 0 else maxZInRow)
      in item\<lparr>position := (currentX1, 0, currentZ1), isValid := True\<rparr>
         # stagingLoop (currentX1 + (length_dim (dimensions item) + spacing)) currentZ1
             (max maxZInRow1 (width_dim (dimensions item))) rest)"

definition arrangeStaging :: "CargoItem list \<Rightarrow> Dimensions \<Rightarrow> CargoItem list" where
  "arrangeStaging its container = stagingLoop 0 (stagingZStart container) 0 its"

section \<open>Free-space manager\<close>

text \<open>
  The body of the loop over \<^verbatim>\<open>freeSpaces\<close> in \<^verbatim>\<open>runPackingTrial\<close>: the boxes
  pushed to \<^verbatim>\<open>newFreeSpaces\<close> for one free space \<^verbatim>\<open>fs\<close>, in the order of the pushes.
\<close>

definition splitSpace :: "Box \<Rightarrow> Box \<Rightarrow> Box list" where
  "splitSpace placedBox fs =
     (if boxIntersect fs placedBox then
        (if box_x placedBox + box_l placedBox < box_x fs + box_l fs
         then [fs\<lparr>box_x := max (box_x fs) (box_x placedBox + box_l placedBox),
                  box_l := (box_x fs + box_l fs)
                           - max (box_x fs) (box_x placedBox + box_l placedBox)\<rparr>]
         else [])
        @ (if box_x placedBox > box_x fs
           then [fs\<lparr>box_l := box_x placedBox - box_x fs\<rparr>]
           else [])
        @ (if box_y placedBox + box_h placedBox < box_y fs + box_h fs
           then [fs\<lparr>box_y := max (box_y fs) (box_y placedBox + box_h placedBox),
                    box_h := (box_y fs + box_h fs)
                             - max (box_y fs) (box_y placedBox + box_h placedBox)\<rparr>]
           else [])
        @ (if box_z placedBox + box_w placedBox < box_z fs + box_w fs
           then [fs\<lparr>box_z := max (box_z fs) (box_z placedBox + box_w placedBox),
                    box_w := (box_z fs + box_w fs)
                             - max (box_z fs) (box_z placedBox + box_w placedBox)\<rparr>]
           else [])
        @ (if box_z placedBox > box_z fs
           then [fs\<lparr>box_w := box_z placedBox - box_z fs\<rparr>]
           else [])
      else [fs])"

definition splitSpaces :: "Box list \<Rightarrow> Box \<Rightarrow> Box list" where
  "splitSpaces freeSpaces placedBox = concat (map (splitSpace placedBox) freeSpaces)"

text \<open>The comparator \<^verbatim>\<open>a.y - b.y || a.z - b.z || a.x - b.x\<close> of \<^verbatim>\<open>cleanupSpaces\<close>.\<close>

definition compareSpaces :: "Box \<Rightarrow> Box \<Rightarrow> real" where
  "compareSpaces a b =
     (if box_y a - box_y b \<noteq> 0 then box_y a - box_y b
      else if box_z a - box_z b \<noteq> 0 then box_z a - box_z b
      else box_x a - box_x b)"

definition MIN_DIM :: real where
  "MIN_DIM = 50"

definition validSize :: "Box \<Rightarrow> bool" where
  "validSize s \<longleftrightarrow> box_l s \<ge> MIN_DIM \<and> box_w s \<ge> MIN_DIM \<and> box_h s \<ge> MIN_DIM"

text \<open>
  The inner loop of \<^verbatim>\<open>cleanupSpaces\<close> for the box \<^verbatim>\<open>inner\<close> at index \<^verbatim>\<open>i\<close>:
  it runs over the boxes from index \<^verbatim>\<open>j\<close> on, skips \<^verbatim>\<open>j = i\<close> and stops at the first
  box that contains \<^verbatim>\<open>inner\<close>.
\<close>

fun isContained :: "nat \<Rightarrow> Box \<Rightarrow> nat \<Rightarrow> Box list \<Rightarrow> bool" where
  "isContained i inner j [] = False"
| "isContained i inner j (outer # rest) =
     (if i = j then isContained i inner (Suc j) rest
      else if contains outer inner then True
      else isContained i inner (Suc j) rest)"

text \<open>The outer loop, over the boxes from index \<^verbatim>\<open>i\<close> on.\<close>

fun cleanupLoop :: "Box list \<Rightarrow> nat \<Rightarrow> Box list \<Rightarrow> Box list" where
  "cleanupLoop validSizeSpaces i [] = []"
| "cleanupLoop validSizeSpaces i (s # rest) =
     (if isContained i s 0 validSizeSpaces then cleanupLoop validSizeSpaces (Suc i) rest
      else s # cleanupLoop validSizeSpaces (Suc i) rest)"

definition cleanupSpaces :: "Box list \<Rightarrow> Box list" where
  "cleanupSpaces spaces =
     (let validSizeSpaces = filter validSize (sortBy compareSpaces spaces)
      in cleanupLoop validSizeSpaces 0 validSizeSpaces)"

section \<open>Placement scorer\<close>

text \<open>
  The three variables \<^verbatim>\<open>bestSpaceIndex\<close>, \<^verbatim>\<open>bestRotation\<close> and \<^verbatim>\<open>bestScore\<close> are
  one value: \<open>None\<close> stands for their initial values \<^verbatim>\<open>-1\<close>, \<^verbatim>\<open>false\<close> and
  \<^verbatim>\<open>Infinity\<close>, which the loop leaves together at the first feasible candidate and
  never restores. A real score is below \<^verbatim>\<open>Infinity\<close>.
\<close>

type_synonym Best = "(nat \<times> bool \<times> real) option"

definition spaceScore :: "Box \<Rightarrow> real" where
  "spaceScore space = (box_y space * 1000000) + (box_z space * 1000) + box_x space"

definition improves :: "real \<Rightarrow> Best \<Rightarrow> bool" where
  "improves score best = (case best of None \<Rightarrow> True | Some (_, _, bestScore) \<Rightarrow> score < bestScore)"

definition fitsNormal :: "CargoItem \<Rightarrow> Box \<Rightarrow> bool" where
  "fitsNormal item space \<longleftrightarrow>
     length_dim (dimensions item) \<le> box_l space \<and>
     height_dim (dimensions item) \<le> box_h space \<and>
     width_dim (dimensions item) \<le> box_w space"

definition fitsRotated :: "CargoItem \<Rightarrow> Box \<Rightarrow> bool" where
  "fitsRotated item space \<longleftrightarrow>
     width_dim (dimensions item) \<le> box_l space \<and>
     height_dim (dimensions item) \<le> box_h space \<and>
     length_dim (dimensions item) \<le> box_w space"

definition tryNormal :: "CargoItem \<Rightarrow> nat \<Rightarrow> Box \<Rightarrow> Best \<Rightarrow> Best" where
  "tryNormal item i space best =
     (if fitsNormal item space then
        (if improves (spaceScore space) best then Some (i, False, spaceScore space) else best)
      else best)"

definition tryRotated :: "CargoItem \<Rightarrow> nat \<Rightarrow> Box \<Rightarrow> Best \<Rightarrow> Best" where
  "tryRotated item i space best =
     (if length_dim (dimensions item) \<noteq> width_dim (dimensions item) then
        (if fitsRotated item space then
           (if improves (spaceScore space) best then Some (i, True, spaceScore space) else best)
         else best)
      else best)"

fun scanSpaces :: "CargoItem \<Rightarrow> nat \<Rightarrow> Box list \<Rightarrow> Best \<Rightarrow> Best" where
  "scanSpaces item i [] best = best"
| "scanSpaces item i (space # rest) best =
     scanSpaces item (Suc i) rest (tryRotated item i space (tryNormal item i space best))"

definition findBestSpace :: "CargoItem \<Rightarrow> Box list \<Rightarrow> Best" where
  "findBestSpace item freeSpaces = scanSpaces item 0 freeSpaces None"

section \<open>Sort strategies\<close>

datatype SortStrategy = VOLUME | FOOTPRINT | MAX_DIM | RANDOM_WEIGHTED

definition volume :: "Dimensions \<Rightarrow> real" where
  "volume d = length_dim d * width_dim d * height_dim d"

definition compareItems :: "SortStrategy \<Rightarrow> real \<Rightarrow> CargoItem \<Rightarrow> CargoItem \<Rightarrow> real" where
  "compareItems strategy randomSeed a b =
     (let volA = volume (dimensions a);
          volB = volume (dimensions b);
          areaA = length_dim (dimensions a) * width_dim (dimensions a);
          areaB = length_dim (dimensions b) * width_dim (dimensions b);
          maxDimA = max (max (length_dim (dimensions a)) (width_dim (dimensions a)))
                        (height_dim (dimensions a));
          maxDimB = max (max (length_dim (dimensions b)) (width_dim (dimensions b)))
                        (height_dim (dimensions b));
          score =
            (case strategy of
               VOLUME \<Rightarrow> volB - volA
             | FOOTPRINT \<Rightarrow> (if areaA \<noteq> areaB then areaB - areaA else volB - volA)
             | MAX_DIM \<Rightarrow> (if maxDimA \<noteq> maxDimB then maxDimB - maxDimA else volB - volA)
             | RANDOM_WEIGHTED \<Rightarrow>
                 (let noiseA = sin (real (length (item_id a)) + randomSeed) * 0.2;
                      noiseB = sin (real (length (item_id b)) + randomSeed) * 0.2
                  in (volB * (1 + noiseB)) - (volA * (1 + noiseA))))
      in if \<bar>score\<bar> < 0.1
         then height_dim (dimensions b) - height_dim (dimensions a)
         else score)"

section \<open>Trial runner\<close>

text \<open>
  The variables of \<^verbatim>\<open>runPackingTrial\<close> that its loop over \<^verbatim>\<open>itemsToPack\<close> updates.
\<close>

record TrialState =
  freeSpaces :: "Box list"
  placedItems :: "CargoItem list"
  totalPackedVol :: real

record TrialResult =
  items :: "CargoItem list"
  packedVolume :: real
  packedCount :: nat

definition initialState :: "Dimensions \<Rightarrow> TrialState" where
  "initialState container =
     \<lparr>freeSpaces = [\<lparr>box_x = 0, box_y = 0, box_z = 0,
                     box_l = length_dim container, box_h = height_dim container,
                     box_w = width_dim container\<rparr>],
      placedItems = [],
      totalPackedVol = 0\<rparr>"

definition placedBoxOf :: "CargoItem \<Rightarrow> Box \<Rightarrow> bool \<Rightarrow> Box" where
  "placedBoxOf item space bestRotation =
     (let placedWidth = (if bestRotation then length_dim (dimensions item)
                         else width_dim (dimensions item));
          placedLength = (if bestRotation then width_dim (dimensions item)
                          else length_dim (dimensions item))
      in \<lparr>box_x = box_x space, box_y = box_y space, box_z = box_z space,
          box_l = placedLength, box_h = height_dim (dimensions item), box_w = placedWidth\<rparr>)"

definition newItemOf :: "CargoItem \<Rightarrow> Box \<Rightarrow> bool \<Rightarrow> CargoItem" where
  "newItemOf item space bestRotation =
     (let placedWidth = (if bestRotation then length_dim (dimensions item)
                         else width_dim (dimensions item));
          placedLength = (if bestRotation then width_dim (dimensions item)
                          else length_dim (dimensions item));
          finalDimensions = (if bestRotation
                             then (dimensions item)\<lparr>length_dim := placedLength,
                                                     width_dim := placedWidth\<rparr>
                             else dimensions item)
      in item\<lparr>dimensions := finalDimensions,
              position := (box_x space, box_y space, box_z space),
              isValid := True\<rparr>)"

text \<open>One turn of the loop over \<^verbatim>\<open>itemsToPack\<close>.\<close>

definition packItem :: "TrialState \<Rightarrow> CargoItem \<Rightarrow> TrialState" where
  "packItem st item =
     (case findBestSpace item (freeSpaces st) of
        Some (bestSpaceIndex, bestRotation, bestScore) \<Rightarrow>
          (let space = freeSpaces st ! bestSpaceIndex;
               newItem = newItemOf item space bestRotation;
               placedBox = placedBoxOf item space bestRotation
           in \<lparr>freeSpaces = cleanupSpaces (splitSpaces (freeSpaces st) placedBox),
               placedItems = placedItems st @ [newItem],
               totalPackedVol = totalPackedVol st + volume (dimensions newItem)\<rparr>)
      | None \<Rightarrow>
          st\<lparr>placedItems := placedItems st @ [item\<lparr>position := (0, -9999, 0),
                                                   isValid := False\<rparr>]\<rparr>)"

definition packAll :: "Dimensions \<Rightarrow> CargoItem list \<Rightarrow> TrialState" where
  "packAll container itemsToPack = foldl packItem (initialState container) itemsToPack"

definition resultOf :: "TrialState \<Rightarrow> TrialResult" where
  "resultOf st =
     \<lparr>items = placedItems st,
      packedVolume = totalPackedVol st,
      packedCount = length (filter isValid (placedItems st))\<rparr>"

definition runPackingTrial ::
    "CargoItem list \<Rightarrow> Dimensions \<Rightarrow> SortStrategy \<Rightarrow> real \<Rightarrow> TrialResult" where
  "runPackingTrial its container strategy randomSeed =
     resultOf (packAll container (sortBy (compareItems strategy randomSeed) its))"

section \<open>Multi-start orchestrator\<close>

definition trials :: "(SortStrategy \<times> real) list" where
  "trials = [(VOLUME, 0), (FOOTPRINT, 0), (MAX_DIM, 0),
             (RANDOM_WEIGHTED, 1), (RANDOM_WEIGHTED, 42),
             (RANDOM_WEIGHTED, 123), (RANDOM_WEIGHTED, 999)]"

text \<open>The test \<^verbatim>\<open>!bestResult || result.packedVolume > bestResult.packedVolume\<close>.\<close>

definition keepBest :: "TrialResult option \<Rightarrow> TrialResult \<Rightarrow> TrialResult option" where
  "keepBest bestResult result =
     (case bestResult of
        None \<Rightarrow> Some result
      | Some b \<Rightarrow> (if packedVolume result > packedVolume b then Some result else Some b))"

definition selectBest :: "TrialResult list \<Rightarrow> TrialResult option" where
  "selectBest results = foldl keepBest None results"

definition trialResults :: "CargoItem list \<Rightarrow> Dimensions \<Rightarrow> TrialResult list" where
  "trialResults its container =
     map (\<lambda>(strategy, seed). runPackingTrial its container strategy seed) trials"

definition autoPack :: "CargoItem list \<Rightarrow> Dimensions \<Rightarrow> CargoItem list" where
  "autoPack its container =
     (case selectBest (trialResults its container) of
        None \<Rightarrow> its
      | Some bestResult \<Rightarrow>
          (let success = filter isValid (items bestResult);
               failed = filter (\<lambda>i. \<not> isValid i) (items bestResult);
               stagedFailed = arrangeStaging failed container
           in success @ stagedFailed))"

section \<open>Vocabulary of the specification\<close>

text \<open>
  The definitions of this section are not translations of code. They put the words of
  the design description into HOL, for the theorems below to compare the code with.
\<close>

subsection \<open>Items and boxes\<close>

text \<open>
  What an item is apart from where it stands: its record with the position and the
  validity flag reset and the footprint put longer side first, so that a placed, a
  rotated and a staged copy of one item are equal.
\<close>

definition cargoOf :: "CargoItem \<Rightarrow> CargoItem" where
  "cargoOf item =
     item\<lparr>dimensions := (dimensions item)
               \<lparr>length_dim := max (length_dim (dimensions item)) (width_dim (dimensions item)),
                width_dim := min (length_dim (dimensions item)) (width_dim (dimensions item))\<rparr>,
           position := (0, 0, 0), isValid := True\<rparr>"

text \<open>The axis-aligned bounding box of an item: its corner position and its extents.\<close>

definition itemBox :: "CargoItem \<Rightarrow> Box" where
  "itemBox item =
     \<lparr>box_x = pos_x (position item), box_y = pos_y (position item), box_z = pos_z (position item),
      box_l = length_dim (dimensions item), box_h = height_dim (dimensions item),
      box_w = width_dim (dimensions item)\<rparr>"

definition positiveDims :: "Dimensions \<Rightarrow> bool" where
  "positiveDims d \<longleftrightarrow> 0 < length_dim d \<and> 0 < width_dim d \<and> 0 < height_dim d"

definition withinContainer :: "Dimensions \<Rightarrow> Box \<Rightarrow> bool" where
  "withinContainer container b \<longleftrightarrow>
     0 \<le> box_x b \<and> 0 \<le> box_y b \<and> 0 \<le> box_z b \<and>
     box_x b + box_l b \<le> length_dim container \<and>
     box_y b + box_h b \<le> height_dim container \<and>
     box_z b + box_w b \<le> width_dim container"

definition positiveExtents :: "Box \<Rightarrow> bool" where
  "positiveExtents b \<longleftrightarrow> 0 < box_l b \<and> 0 < box_h b \<and> 0 < box_w b"

text \<open>
  A free space as the free-space manager keeps it: inside the container, and of positive
  extents when the container has positive dimensions.
\<close>

definition spaceOk :: "Dimensions \<Rightarrow> Box \<Rightarrow> bool" where
  "spaceOk container b \<longleftrightarrow>
     withinContainer container b \<and> (positiveDims container \<longrightarrow> positiveExtents b)"

subsection \<open>Placement scorer\<close>

text \<open>
  An orientation is feasible iff each of the three extents of the item fits within the
  corresponding extent of the space; the height never rotates.
\<close>

definition feasible :: "CargoItem \<Rightarrow> Box \<Rightarrow> bool \<Rightarrow> bool" where
  "feasible item space rotated \<longleftrightarrow>
     (if rotated then width_dim (dimensions item) else length_dim (dimensions item))
       \<le> box_l space \<and>
     height_dim (dimensions item) \<le> box_h space \<and>
     (if rotated then length_dim (dimensions item) else width_dim (dimensions item))
       \<le> box_w space"

text \<open>Unrotated first; rotated only for a footprint that is not square.\<close>

definition orientations :: "CargoItem \<Rightarrow> bool list" where
  "orientations item =
     (if length_dim (dimensions item) \<noteq> width_dim (dimensions item)
      then [False, True] else [False])"

text \<open>A candidate is the index of a space, an orientation, and the score of the space.\<close>

type_synonym Candidate = "nat \<times> bool \<times> real"

definition scoreOf :: "Candidate \<Rightarrow> real" where
  "scoreOf c = snd (snd c)"

definition spaceCandidates :: "CargoItem \<Rightarrow> nat \<Rightarrow> Box \<Rightarrow> Candidate list" where
  "spaceCandidates item i space =
     map (\<lambda>rotated. (i, rotated, box_y space * 1000000 + box_z space * 1000 + box_x space))
       (filter (feasible item space) (orientations item))"

definition candidates :: "CargoItem \<Rightarrow> Box list \<Rightarrow> Candidate list" where
  "candidates item spaces =
     concat (map (\<lambda>i. spaceCandidates item i (spaces ! i)) [0..<length spaces])"

text \<open>
  Candidate \<open>k\<close> of a list has the lowest score, and is the first one that has it.
\<close>

definition firstLowest :: "Candidate list \<Rightarrow> nat \<Rightarrow> bool" where
  "firstLowest cs k \<longleftrightarrow>
     k < length cs \<and>
     (\<forall>j<k. scoreOf (cs ! k) < scoreOf (cs ! j)) \<and>
     (\<forall>j<length cs. scoreOf (cs ! k) \<le> scoreOf (cs ! j))"

text \<open>The order of the candidates: by space, and unrotated before rotated for one space.\<close>

definition earlier :: "Candidate \<Rightarrow> Candidate \<Rightarrow> bool" where
  "earlier c d \<longleftrightarrow> fst c < fst d \<or> (fst c = fst d \<and> \<not> fst (snd c) \<and> fst (snd d))"

subsection \<open>Free-space manager\<close>

text \<open>
  The five slices of a free space \<open>fs\<close> around a placed box \<open>p\<close>: the part of
  \<open>fs\<close> to the right of \<open>p\<close> along x, to its left along x, above it along y, in front of
  it along z, and behind it along z. The fragments are the slices of positive extent on
  their axis, in this order.
\<close>

definition rightSlice :: "Box \<Rightarrow> Box \<Rightarrow> Box" where
  "rightSlice p fs =
     fs\<lparr>box_x := max (box_x fs) (box_x p + box_l p),
        box_l := (box_x fs + box_l fs) - max (box_x fs) (box_x p + box_l p)\<rparr>"

definition leftSlice :: "Box \<Rightarrow> Box \<Rightarrow> Box" where
  "leftSlice p fs = fs\<lparr>box_l := min (box_x fs + box_l fs) (box_x p) - box_x fs\<rparr>"

definition aboveSlice :: "Box \<Rightarrow> Box \<Rightarrow> Box" where
  "aboveSlice p fs =
     fs\<lparr>box_y := max (box_y fs) (box_y p + box_h p),
        box_h := (box_y fs + box_h fs) - max (box_y fs) (box_y p + box_h p)\<rparr>"

definition frontSlice :: "Box \<Rightarrow> Box \<Rightarrow> Box" where
  "frontSlice p fs =
     fs\<lparr>box_z := max (box_z fs) (box_z p + box_w p),
        box_w := (box_z fs + box_w fs) - max (box_z fs) (box_z p + box_w p)\<rparr>"

definition behindSlice :: "Box \<Rightarrow> Box \<Rightarrow> Box" where
  "behindSlice p fs = fs\<lparr>box_w := min (box_z fs + box_w fs) (box_z p) - box_z fs\<rparr>"

definition fragments :: "Box \<Rightarrow> Box \<Rightarrow> Box list" where
  "fragments p fs =
     map fst (filter (\<lambda>(slice, extent). 0 < extent)
       [(rightSlice p fs, box_l (rightSlice p fs)),
        (leftSlice p fs, box_l (leftSlice p fs)),
        (aboveSlice p fs, box_h (aboveSlice p fs)),
        (frontSlice p fs, box_w (frontSlice p fs)),
        (behindSlice p fs, box_w (behindSlice p fs))])"

text \<open>
  Cleanup in two passes: the boxes that survive the threshold of 50, then those of the
  survivors that no other survivor contains.
\<close>

definition survivors :: "Box list \<Rightarrow> Box list" where
  "survivors boxes = filter (\<lambda>b. \<not> (box_l b < 50 \<or> box_h b < 50 \<or> box_w b < 50)) boxes"

definition containedInAnother :: "Box list \<Rightarrow> nat \<Rightarrow> bool" where
  "containedInAnother bs i \<longleftrightarrow>
     list_ex (\<lambda>j. j \<noteq> i \<and> contains (bs ! j) (bs ! i)) [0..<length bs]"

definition cleanup_spec :: "Box list \<Rightarrow> Box list" where
  "cleanup_spec boxes =
     map (\<lambda>i. survivors boxes ! i)
       (filter (\<lambda>i. \<not> containedInAnother (survivors boxes) i) [0..<length (survivors boxes)])"

subsection \<open>Staging arranger\<close>

text \<open>
  Rows are told apart by their depth coordinate. The row of item \<open>k\<close> of a staged
  list, as far as it is filled when item \<open>k\<close> has been laid, and the largest footprint
  width in it.
\<close>

definition rowOf :: "CargoItem list \<Rightarrow> nat \<Rightarrow> CargoItem list" where
  "rowOf out k =
     filter (\<lambda>it. pos_z (position it) = pos_z (position (out ! k))) (take (Suc k) out)"

definition rowDepth :: "CargoItem list \<Rightarrow> nat \<Rightarrow> real" where
  "rowDepth out k = Max (set (map (\<lambda>it. width_dim (dimensions it)) (rowOf out k)))"

section \<open>Vocabulary of the proofs\<close>

subsection \<open>The scorer as a fold over the candidates\<close>

definition offer :: "Best \<Rightarrow> Candidate \<Rightarrow> Best" where
  "offer best c = (if improves (scoreOf c) best then Some c else best)"

fun candidatesFrom :: "CargoItem \<Rightarrow> nat \<Rightarrow> Box list \<Rightarrow> Candidate list" where
  "candidatesFrom item i [] = []"
| "candidatesFrom item i (space # rest) =
     spaceCandidates item i space @ candidatesFrom item (Suc i) rest"

subsection \<open>The invariant of a trial\<close>

text \<open>
  Every free space lies inside the container and meets no placed item; every placed
  item ends before the far z-face of the container; no two placed items meet.
\<close>

definition trialInv :: "Dimensions \<Rightarrow> TrialState \<Rightarrow> bool" where
  "trialInv c st \<longleftrightarrow>
     (\<forall>fs \<in> set (freeSpaces st). withinContainer c fs) \<and>
     (\<forall>fs \<in> set (freeSpaces st). \<forall>it \<in> set (placedItems st).
        isValid it \<longrightarrow> \<not> boxIntersect fs (itemBox it)) \<and>
     (\<forall>it \<in> set (placedItems st).
        isValid it \<longrightarrow> pos_z (position it) + width_dim (dimensions it) \<le> width_dim c) \<and>
     sorted_wrt (\<lambda>a b. \<not> boxIntersect (itemBox a) (itemBox b)) (filter isValid (placedItems st))"

text \<open>An item as the trial keeps it when no free space takes it.\<close>

definition failedCopy :: "CargoItem \<Rightarrow> CargoItem" where
  "failedCopy item = item\<lparr>position := (0, -9999, 0), isValid := False\<rparr>"

subsection \<open>The state of the staging loop\<close>

text \<open>
  The three variables of \<^verbatim>\<open>arrangeStaging\<close> as one value: the position the loop gives
  to the next item, and the state it leaves.
\<close>

type_synonym StagingState = "real \<times> real \<times> real"

definition stagingPos :: "StagingState \<Rightarrow> CargoItem \<Rightarrow> Position" where
  "stagingPos st item =
     (case st of (currentX, currentZ, maxZInRow) \<Rightarrow>
        if currentX + length_dim (dimensions item) > stagingWidthLimit
        then (0, 0, currentZ + (maxZInRow + spacing))
        else (currentX, 0, currentZ))"

definition stagingNext :: "StagingState \<Rightarrow> CargoItem \<Rightarrow> StagingState" where
  "stagingNext st item =
     (case st of (currentX, currentZ, maxZInRow) \<Rightarrow>
        if currentX + length_dim (dimensions item) > stagingWidthLimit
        then (0 + (length_dim (dimensions item) + spacing), currentZ + (maxZInRow + spacing),
              max 0 (width_dim (dimensions item)))
        else (currentX + (length_dim (dimensions item) + spacing), currentZ,
              max maxZInRow (width_dim (dimensions item))))"

definition stagingFrom :: "StagingState \<Rightarrow> CargoItem list \<Rightarrow> CargoItem list" where
  "stagingFrom st its =
     (case st of (currentX, currentZ, maxZInRow) \<Rightarrow>
        stagingLoop currentX currentZ maxZInRow its)"

definition widthsAt :: "real \<Rightarrow> CargoItem list \<Rightarrow> real set" where
  "widthsAt z out =
     set (map (\<lambda>it. width_dim (dimensions it)) (filter (\<lambda>it. pos_z (position it) = z) out))"

definition stagingInv :: "real \<Rightarrow> CargoItem list \<Rightarrow> StagingState \<Rightarrow> bool" where
  "stagingInv z0 out st \<longleftrightarrow>
     (case st of (cx, cz, mz) \<Rightarrow>
        (\<forall>it \<in> set out. pos_z (position it) \<le> cz) \<and>
        mz = Max (insert 0 (widthsAt cz out)) \<and>
        z0 \<le> cz \<and>
        (out \<noteq> [] \<longrightarrow> pos_z (position (last out)) = cz \<and>
           cx = pos_x (position (last out)) + (length_dim (dimensions (last out)) + spacing)))"

section \<open>Example inputs\<close>

text \<open>
  A container of 1000 x 1000 x 1000 and cubes of side 600: the first cube goes to the
  origin and leaves three free spaces, none of which takes a second cube.
\<close>

definition container1000 :: Dimensions where
  "container1000 = \<lparr>length_dim = 1000, width_dim = 1000, height_dim = 1000\<rparr>"

definition cube600 :: "string \<Rightarrow> CargoItem" where
  "cube600 ident =
     \<lparr>item_id = ident, drawingNo = ''D-600'',
      dimensions = \<lparr>length_dim = 600, width_dim = 600, height_dim = 600\<rparr>,
      position = (0, 0, 0), color = ''#ef4444'', weight = 10, selected = False,
      isValid = True\<rparr>"

definition wholeBox :: Box where
  "wholeBox = \<lparr>box_x = 0, box_y = 0, box_z = 0, box_l = 1000, box_h = 1000, box_w = 1000\<rparr>"

definition cubeBox :: Box where
  "cubeBox = \<lparr>box_x = 0, box_y = 0, box_z = 0, box_l = 600, box_h = 600, box_w = 600\<rparr>"

definition rightBox :: Box where
  "rightBox = \<lparr>box_x = 600, box_y = 0, box_z = 0, box_l = 400, box_h = 1000, box_w = 1000\<rparr>"

definition frontBox :: Box where
  "frontBox = \<lparr>box_x = 0, box_y = 0, box_z = 600, box_l = 1000, box_h = 1000, box_w = 400\<rparr>"

definition aboveBox :: Box where
  "aboveBox = \<lparr>box_x = 0, box_y = 600, box_z = 0, box_l = 1000, box_h = 400, box_w = 1000\<rparr>"

text \<open>A sliver below the threshold, and a box inside \<open>rightBox\<close>.\<close>

definition sliverBox :: Box where
  "sliverBox = \<lparr>box_x = 0, box_y = 0, box_z = 0, box_l = 40, box_h = 1000, box_w = 1000\<rparr>"

definition innerBox :: Box where
  "innerBox = \<lparr>box_x = 700, box_y = 0, box_z = 0, box_l = 100, box_h = 100, box_w = 100\<rparr>"

text \<open>An item of footprint 400 x 300 and height 200.\<close>

definition crate :: CargoItem where
  "crate =
     \<lparr>item_id = ''crate'', drawingNo = ''D-400'',
      dimensions = \<lparr>length_dim = 400, width_dim = 300, height_dim = 200\<rparr>,
      position = (0, 0, 0), color = ''#3b82f6'', weight = 5, selected = False,
      isValid = True\<rparr>"

text \<open>An item of a given length and footprint width, for the staging rows.\<close>

definition beam :: "string \<Rightarrow> real \<Rightarrow> real \<Rightarrow> CargoItem" where
  "beam ident len wid =
     \<lparr>item_id = ident, drawingNo = ''D-BEAM'',
      dimensions = \<lparr>length_dim = len, width_dim = wid, height_dim = 400\<rparr>,
      position = (0, 0, 0), color = ''#10b981'', weight = 50, selected = False,
      isValid = True\<rparr>"

text \<open>A neighbour that occupies the x-interval from 0 to 150 on the floor row.\<close>

definition neighbor :: CargoItem where
  "neighbor =
     \<lparr>item_id = ''neighbor'', drawingNo = ''D-150'',
      dimensions = \<lparr>length_dim = 150, width_dim = 200, height_dim = 200\<rparr>,
      position = (0, 0, 0), color = ''#f59e0b'', weight = 1, selected = False,
      isValid = True\<rparr>"

text \<open>
  Inputs outside the data model, which asks for positive dimensions: a slab too high
  for the container of side 1000, of a given length and footprint width, which may be
  negative; and a container of length 0.
\<close>

definition slab :: "string \<Rightarrow> real \<Rightarrow> real \<Rightarrow> CargoItem" where
  "slab ident len wid =
     \<lparr>item_id = ident, drawingNo = ''D-SLAB'',
      dimensions = \<lparr>length_dim = len, width_dim = wid, height_dim = 2000\<rparr>,
      position = (0, 0, 0), color = ''#8b5cf6'', weight = 20, selected = False,
      isValid = True\<rparr>"

definition flatContainer :: Dimensions where
  "flatContainer = \<lparr>length_dim = 0, width_dim = 1000, height_dim = 1000\<rparr>"

section \<open>Collision detection\<close>

lemma overlapsAny_iff:
  "overlapsAny target others \<longleftrightarrow>
     (\<exists>other \<in> set others. item_id other \<noteq> t_id target \<and> overlap target other)"
  by (induction others) auto

text \<open>
  Claim C7. \<^verbatim>\<open>checkCollision\<close> returns true if and only if a coordinate of the corner
  of the item is below zero, or some item of \<^verbatim>\<open>others\<close> with a different id overlaps it
  by more than the tolerance of 1 on all three axes. Nothing is compared with the
  extents of the container: the result is the same for every container.
\<close>

theorem checkCollision_iff:
  "(checkCollision item others container \<longleftrightarrow>
      pos_x (position item) < 0 \<or> pos_y (position item) < 0 \<or> pos_z (position item) < 0 \<or>
      (\<exists>other \<in> set others. item_id other \<noteq> item_id item \<and>
         pos_x (position item) < pos_x (position other) + length_dim (dimensions other) - 1 \<and>
         pos_x (position item) + length_dim (dimensions item) > pos_x (position other) + 1 \<and>
         pos_y (position item) < pos_y (position other) + height_dim (dimensions other) - 1 \<and>
         pos_y (position item) + height_dim (dimensions item) > pos_y (position other) + 1 \<and>
         pos_z (position item) < pos_z (position other) + width_dim (dimensions other) - 1 \<and>
         pos_z (position item) + width_dim (dimensions item) > pos_z (position other) + 1))
   \<and> checkCollision item others container = checkCollision item others container'"
  by (simp add: checkCollision_def checkCollisionWithCoords_def overlapsAny_iff targetOf_def
      overlap_def epsilon_def Let_def)

text \<open>
  A cube at the origin collides with the neighbour at the origin, whatever the container.
\<close>

theorem checkCollision_iff_witness:
  "checkCollision (cube600 ''a'') [neighbor] container1000 \<and>
   checkCollision (cube600 ''a'') [neighbor] container1000
     = checkCollision (cube600 ''a'') [neighbor] \<lparr>length_dim = 1, width_dim = 1, height_dim = 1\<rparr>"
proof -
  note c7 = checkCollision_iff [of "cube600 ''a''" "[neighbor]" container1000
      "\<lparr>length_dim = 1, width_dim = 1, height_dim = 1\<rparr>"]
  have "checkCollision (cube600 ''a'') [neighbor] container1000"
    by (subst c7 [THEN conjunct1])
      (simp add: neighbor_def cube600_def pos_x_def pos_y_def pos_z_def)
  then show ?thesis using c7 [THEN conjunct2] by blast
qed

section \<open>Snapping\<close>

text \<open>
  Claim C8, as the code has it. The candidate corner is at x = 152, the threshold is
  150, and the only other item occupies the x-interval from 0 to 150. The first test
  moves the corner to the far face of the neighbour, x = 150. For an item at least as
  long as the threshold no later test fires, and the result is x = 150 and not 0.
\<close>

theorem snap_far_face:
  assumes "150 \<le> length_dim dims"
    and "item_id other \<noteq> ident"
    and "pos_x (position other) = 0"
    and "length_dim (dimensions other) = 150"
  shows "pos_x (getSnappingPosition (152, y, z) dims [other] ident 150) = 150 \<and>
         pos_x (getSnappingPosition (152, y, z) dims [other] ident 150) \<noteq> 0"
  using assms
  by (simp add: getSnappingPosition_def snapOrigin_def snapX_def pos_x_def Let_def)

theorem snap_far_face_witness:
  "pos_x (getSnappingPosition (152, 0, 0) (dimensions (cube600 ''a'')) [neighbor] ''a'' 150) = 150"
proof -
  have "150 \<le> length_dim (dimensions (cube600 ''a''))" "item_id neighbor \<noteq> ''a''"
    "pos_x (position neighbor) = 0" "length_dim (dimensions neighbor) = 150"
    by (simp_all add: cube600_def neighbor_def pos_x_def)
  from snap_far_face [OF this] show ?thesis by simp
qed

text \<open>
  For a shorter item the last test of the x-axis, which aligns the right faces, fires
  after the first: an item of length 100 ends at x = 50, inside the neighbour.
\<close>

theorem snap_short_item_counterexample:
  "pos_x (getSnappingPosition (152, 0, 0)
            \<lparr>length_dim = 100, width_dim = 100, height_dim = 100\<rparr> [neighbor] ''a'' 150) = 50 \<and>
   pos_x (getSnappingPosition (152, 0, 0)
            \<lparr>length_dim = 100, width_dim = 100, height_dim = 100\<rparr> [neighbor] ''a'' 150) \<noteq> 150"
  by (simp add: getSnappingPosition_def snapOrigin_def snapX_def snapY_def snapZ_def
      pos_x_def pos_y_def pos_z_def neighbor_def Let_def)

section \<open>Sorting\<close>

lemma mset_insertBy: "mset (insertBy cmp a xs) = add_mset a (mset xs)"
  by (induction xs) auto

lemma mset_sortBy: "mset (sortBy cmp xs) = mset xs"
  by (induction xs) (auto simp: sortBy_def mset_insertBy)

lemma set_sortBy: "set (sortBy cmp xs) = set xs"
  using mset_sortBy [of cmp xs] by (metis set_mset_mset)

section \<open>The example run\<close>

text \<open>
  The trial on one or two cubes of side 600 in the container of side 1000, step by step.
\<close>

lemma initial_example:
  "initialState container1000
     = \<lparr>freeSpaces = [wholeBox], placedItems = [], totalPackedVol = 0\<rparr>"
  by (simp add: initialState_def container1000_def wholeBox_def)

lemma find_whole: "findBestSpace (cube600 i) [wholeBox] = Some (0, False, 0)"
  by (simp add: findBestSpace_def tryNormal_def tryRotated_def fitsNormal_def improves_def
      spaceScore_def cube600_def wholeBox_def)

lemma placedBox_example: "placedBoxOf (cube600 i) wholeBox False = cubeBox"
  by (simp add: placedBoxOf_def cube600_def wholeBox_def cubeBox_def)

lemma newItem_example:
  "newItemOf (cube600 i) wholeBox False = (cube600 i)\<lparr>position := (0, 0, 0), isValid := True\<rparr>"
  by (simp add: newItemOf_def cube600_def wholeBox_def)

lemma intersect_example: "boxIntersect wholeBox cubeBox"
  by (simp add: boxIntersect_def wholeBox_def cubeBox_def)

lemma split_example: "splitSpace cubeBox wholeBox = [rightBox, aboveBox, frontBox]"
  by (simp add: splitSpace_def boxIntersect_def wholeBox_def cubeBox_def
      rightBox_def aboveBox_def frontBox_def)

lemma sort_example:
  "sortBy compareSpaces [rightBox, aboveBox, frontBox] = [rightBox, frontBox, aboveBox]"
  by (simp add: sortBy_def compareSpaces_def rightBox_def aboveBox_def frontBox_def)

lemma cleanup_example:
  "cleanupSpaces [rightBox, aboveBox, frontBox] = [rightBox, frontBox, aboveBox]"
  unfolding cleanupSpaces_def sort_example Let_def
  by (simp add: validSize_def MIN_DIM_def contains_def rightBox_def aboveBox_def frontBox_def)

lemma find_none: "findBestSpace (cube600 i) [rightBox, frontBox, aboveBox] = None"
  by (simp add: findBestSpace_def tryNormal_def tryRotated_def fitsNormal_def
      cube600_def rightBox_def aboveBox_def frontBox_def)

lemma packItem_first:
  "packItem (initialState container1000) (cube600 i) =
     \<lparr>freeSpaces = [rightBox, frontBox, aboveBox],
      placedItems = [(cube600 i)\<lparr>position := (0, 0, 0), isValid := True\<rparr>],
      totalPackedVol = 216000000\<rparr>"
  by (simp add: initial_example packItem_def find_whole placedBox_example newItem_example
      splitSpaces_def split_example cleanup_example volume_def)
    (simp add: cube600_def)

lemma packAll_example:
  "packAll container1000 [cube600 ''a'', cube600 ''b''] =
     \<lparr>freeSpaces = [rightBox, frontBox, aboveBox],
      placedItems = [(cube600 ''a'')\<lparr>position := (0, 0, 0), isValid := True\<rparr>,
                     (cube600 ''b'')\<lparr>position := (0, -9999, 0), isValid := False\<rparr>],
      totalPackedVol = 216000000\<rparr>"
  by (simp add: packAll_def packItem_first) (simp add: packItem_def find_none)

lemma sortItems_example:
  "sortBy (compareItems s seed) [cube600 ''a'', cube600 ''b''] = [cube600 ''a'', cube600 ''b'']"
  by (cases s) (simp_all add: sortBy_def compareItems_def volume_def cube600_def Let_def)

lemma trial_example:
  "runPackingTrial [cube600 ''a'', cube600 ''b''] container1000 s seed =
     \<lparr>items = [(cube600 ''a'')\<lparr>position := (0, 0, 0), isValid := True\<rparr>,
               (cube600 ''b'')\<lparr>position := (0, -9999, 0), isValid := False\<rparr>],
      packedVolume = 216000000, packedCount = 1\<rparr>"
  by (simp add: runPackingTrial_def sortItems_example packAll_example resultOf_def)

lemma staging_example:
  "arrangeStaging [(cube600 ''b'')\<lparr>position := (0, -9999, 0), isValid := False\<rparr>] container1000
     = [(cube600 ''b'')\<lparr>position := (0, 0, 2500), isValid := True\<rparr>]"
  by (simp add: arrangeStaging_def stagingZStart_def stagingWidthLimit_def spacing_def
      cube600_def container1000_def)

lemma autoPack_example:
  "autoPack [cube600 ''a'', cube600 ''b''] container1000 =
     [(cube600 ''a'')\<lparr>position := (0, 0, 0), isValid := True\<rparr>,
      (cube600 ''b'')\<lparr>position := (0, 0, 2500), isValid := True\<rparr>]"
  by (simp add: autoPack_def trialResults_def trials_def trial_example selectBest_def
      keepBest_def staging_example)

section \<open>Multi-start orchestrator\<close>

subsection \<open>No item is lost\<close>

lemma cargoOf_newItemOf: "cargoOf (newItemOf item space rot) = cargoOf item"
  by (cases rot) (simp_all add: cargoOf_def newItemOf_def Let_def max.commute min.commute)

lemma cargoOf_moved: "cargoOf (item\<lparr>position := p, isValid := v\<rparr>) = cargoOf item"
  by (simp add: cargoOf_def)

lemma placedItems_packItem:
  "\<exists>item'. placedItems (packItem st item) = placedItems st @ [item'] \<and>
      cargoOf item' = cargoOf item"
  by (auto simp: packItem_def Let_def cargoOf_newItemOf cargoOf_moved split: option.splits)

lemma cargo_foldl_packItem:
  "map cargoOf (placedItems (foldl packItem st its))
     = map cargoOf (placedItems st) @ map cargoOf its"
proof (induction its arbitrary: st)
  case Nil
  show ?case by simp
next
  case (Cons item its)
  obtain item' where "placedItems (packItem st item) = placedItems st @ [item']"
    "cargoOf item' = cargoOf item"
    using placedItems_packItem by blast
  then show ?case using Cons.IH [of "packItem st item"] by simp
qed

lemma cargo_packAll: "map cargoOf (placedItems (packAll container its)) = map cargoOf its"
  by (simp add: packAll_def cargo_foldl_packItem initialState_def)

lemma cargo_runPackingTrial:
  "mset (map cargoOf (items (runPackingTrial its container strategy seed)))
     = mset (map cargoOf its)"
proof -
  have "mset (map cargoOf (items (runPackingTrial its container strategy seed)))
        = image_mset cargoOf (mset (sortBy (compareItems strategy seed) its))"
    by (simp add: runPackingTrial_def resultOf_def cargo_packAll)
  then show ?thesis by (simp add: mset_sortBy)
qed

lemma cargo_stagingLoop: "map cargoOf (stagingLoop cx cz mz its) = map cargoOf its"
  by (induction its arbitrary: cx cz mz) (simp_all add: Let_def cargoOf_moved)

lemma cargo_arrangeStaging: "map cargoOf (arrangeStaging its container) = map cargoOf its"
  by (simp add: arrangeStaging_def cargo_stagingLoop)

lemma mset_map_partition:
  "mset (map f (filter P xs)) + mset (map f (filter (\<lambda>x. \<not> P x) xs)) = mset (map f xs)"
  by (induction xs) auto

subsection \<open>The winner of the battery\<close>

lemma selectBest_snoc: "selectBest (rs @ [r]) = keepBest (selectBest rs) r"
  by (simp add: selectBest_def)

lemma selectBest_first_max:
  "rs \<noteq> [] \<Longrightarrow>
   \<exists>k<length rs. selectBest rs = Some (rs ! k) \<and>
      (\<forall>j<length rs. packedVolume (rs ! j) \<le> packedVolume (rs ! k)) \<and>
      (\<forall>j<k. packedVolume (rs ! j) < packedVolume (rs ! k))"
proof (induction rs rule: rev_induct)
  case Nil
  then show ?case by simp
next
  case (snoc r rs)
  show ?case
  proof (cases "rs = []")
    case True
    then show ?thesis by (simp add: selectBest_def keepBest_def)
  next
    case False
    then obtain k where k: "k < length rs" "selectBest rs = Some (rs ! k)"
      "\<forall>j<length rs. packedVolume (rs ! j) \<le> packedVolume (rs ! k)"
      "\<forall>j<k. packedVolume (rs ! j) < packedVolume (rs ! k)"
      using snoc.IH by blast
    show ?thesis
    proof (cases "packedVolume r > packedVolume (rs ! k)")
      case True
      have "selectBest (rs @ [r]) = Some ((rs @ [r]) ! length rs)"
        using True k(2) by (simp add: selectBest_snoc keepBest_def)
      moreover have "\<forall>j<length rs.
          packedVolume ((rs @ [r]) ! j) < packedVolume ((rs @ [r]) ! length rs)"
        using True k(3) by (auto simp: nth_append)
      ultimately show ?thesis
        by (intro exI [of _ "length rs"]) (auto simp: nth_append less_Suc_eq)
    next
      case False
      have "selectBest (rs @ [r]) = Some ((rs @ [r]) ! k)"
        using False k(1,2) by (simp add: selectBest_snoc keepBest_def nth_append)
      moreover have "\<forall>j<length (rs @ [r]).
          packedVolume ((rs @ [r]) ! j) \<le> packedVolume ((rs @ [r]) ! k)"
        using False k(1,3) by (auto simp: nth_append less_Suc_eq)
      moreover have "\<forall>j<k. packedVolume ((rs @ [r]) ! j) < packedVolume ((rs @ [r]) ! k)"
        using k(1,4) by (auto simp: nth_append)
      ultimately show ?thesis using k(1)
        by (intro exI [of _ k]) auto
    qed
  qed
qed

lemma length_trials: "length trials = 7"
  by (simp add: trials_def)

lemma length_trialResults: "length (trialResults its container) = 7"
  by (simp add: trialResults_def length_trials)

lemma nth_trialResults:
  "j < 7 \<Longrightarrow> trialResults its container ! j
     = runPackingTrial its container (fst (trials ! j)) (snd (trials ! j))"
  by (simp add: trialResults_def length_trials case_prod_beta)

lemma autoPack_winner:
  "\<exists>k<7. (\<forall>j<7. packedVolume (trialResults its container ! j)
               \<le> packedVolume (trialResults its container ! k)) \<and>
      (\<forall>j<k. packedVolume (trialResults its container ! j)
               < packedVolume (trialResults its container ! k)) \<and>
      autoPack its container =
        filter isValid (items (trialResults its container ! k))
        @ arrangeStaging (filter (\<lambda>i. \<not> isValid i) (items (trialResults its container ! k)))
            container"
proof -
  have "trialResults its container \<noteq> []"
    using length_trialResults [of its container] by auto
  from selectBest_first_max [OF this] obtain k where
    k: "k < 7" "selectBest (trialResults its container) = Some (trialResults its container ! k)"
      "\<forall>j<7. packedVolume (trialResults its container ! j)
               \<le> packedVolume (trialResults its container ! k)"
      "\<forall>j<k. packedVolume (trialResults its container ! j)
               < packedVolume (trialResults its container ! k)"
    by (auto simp: length_trialResults)
  have "autoPack its container =
        filter isValid (items (trialResults its container ! k))
        @ arrangeStaging (filter (\<lambda>i. \<not> isValid i) (items (trialResults its container ! k)))
            container"
    using k(2) by (simp add: autoPack_def Let_def)
  with k show ?thesis by blast
qed

text \<open>
  Claim C3. The battery is the seven trials VOLUME, FOOTPRINT, MAX_DIM and
  RANDOM_WEIGHTED with the four distinct seeds 1, 42, 123 and 999, in this order.
  \<^verbatim>\<open>autoPack\<close> returns the items of the trial \<open>k\<close> whose packed volume is strictly greater
  than that of every trial before it and not less than that of any trial: its valid
  items followed by its invalid items as the staging arranger lays them out.
\<close>

theorem autoPack_best_of_seven:
  "trials = [(VOLUME, 0), (FOOTPRINT, 0), (MAX_DIM, 0), (RANDOM_WEIGHTED, 1),
             (RANDOM_WEIGHTED, 42), (RANDOM_WEIGHTED, 123), (RANDOM_WEIGHTED, 999)] \<and>
   distinct (map snd (drop 3 trials)) \<and>
   length (trialResults its container) = 7 \<and>
   (\<forall>j<7. trialResults its container ! j
            = runPackingTrial its container (fst (trials ! j)) (snd (trials ! j))) \<and>
   (\<exists>k<7.
      (\<forall>j<k. packedVolume (trialResults its container ! j)
               < packedVolume (trialResults its container ! k)) \<and>
      (\<forall>j<7. packedVolume (trialResults its container ! j)
               \<le> packedVolume (trialResults its container ! k)) \<and>
      autoPack its container =
        filter isValid (items (trialResults its container ! k))
        @ arrangeStaging (filter (\<lambda>i. \<not> isValid i) (items (trialResults its container ! k)))
            container)"
proof -
  have "distinct (map snd (drop 3 trials))" by (simp add: trials_def)
  moreover have "\<forall>j<7. trialResults its container ! j
            = runPackingTrial its container (fst (trials ! j)) (snd (trials ! j))"
    by (simp add: nth_trialResults)
  ultimately show ?thesis
    using autoPack_winner [of its container] length_trialResults [of its container]
    by (simp add: trials_def [symmetric]) blast
qed

text \<open>
  On the two cubes every trial packs the first cube only: all seven volumes are equal,
  and the first trial, VOLUME, is the winner.
\<close>

theorem autoPack_best_of_seven_witness:
  "packedVolume (runPackingTrial [cube600 ''a'', cube600 ''b''] container1000 VOLUME 0)
     = 216000000 \<and>
   autoPack [cube600 ''a'', cube600 ''b''] container1000 =
     filter isValid (items (runPackingTrial [cube600 ''a'', cube600 ''b''] container1000 VOLUME 0))
     @ arrangeStaging (filter (\<lambda>i. \<not> isValid i)
         (items (runPackingTrial [cube600 ''a'', cube600 ''b''] container1000 VOLUME 0)))
         container1000"
proof -
  let ?its = "[cube600 ''a'', cube600 ''b'']"
  let ?rs = "trialResults ?its container1000"
  have all: "?rs ! j = runPackingTrial ?its container1000 VOLUME 0" if "j < 7" for j
    using that by (simp add: nth_trialResults trial_example)
  obtain k where k: "k < 7"
    "\<forall>j<k. packedVolume (?rs ! j) < packedVolume (?rs ! k)"
    "autoPack ?its container1000 =
       filter isValid (items (?rs ! k))
       @ arrangeStaging (filter (\<lambda>i. \<not> isValid i) (items (?rs ! k))) container1000"
    using autoPack_best_of_seven [of ?its container1000] by blast
  have "packedVolume (runPackingTrial ?its container1000 VOLUME 0) = 216000000"
    by (simp add: trial_example)
  then show ?thesis using k(3) by (simp add: all [OF k(1)])
qed

subsection \<open>The output has the items of the input\<close>

lemma autoPack_cargo:
  "mset (map cargoOf (autoPack its container)) = mset (map cargoOf its)"
proof -
  obtain k where k: "k < 7" "autoPack its container =
        filter isValid (items (trialResults its container ! k))
        @ arrangeStaging (filter (\<lambda>i. \<not> isValid i) (items (trialResults its container ! k)))
            container"
    using autoPack_winner [of its container] by blast
  let ?xs = "items (trialResults its container ! k)"
  have "mset (map cargoOf (autoPack its container))
        = mset (map cargoOf (filter isValid ?xs))
          + mset (map cargoOf (arrangeStaging (filter (\<lambda>i. \<not> isValid i) ?xs) container))"
    by (simp only: k(2) map_append mset_append)
  also have "\<dots> = mset (map cargoOf ?xs)"
    by (simp only: cargo_arrangeStaging mset_map_partition)
  also have "\<dots> = mset (map cargoOf its)"
    using cargo_runPackingTrial [of its container "fst (trials ! k)" "snd (trials ! k)"]
    by (simp only: nth_trialResults [OF k(1)])
  finally show ?thesis .
qed

section \<open>Placement scorer\<close>

lemma try_offer:
  "tryRotated item i space (tryNormal item i space best)
     = foldl offer best (spaceCandidates item i space)"
  by (simp add: tryRotated_def tryNormal_def spaceCandidates_def orientations_def feasible_def
      fitsNormal_def fitsRotated_def offer_def spaceScore_def scoreOf_def)

lemma scanSpaces_foldl:
  "scanSpaces item i spaces best = foldl offer best (candidatesFrom item i spaces)"
  by (induction spaces arbitrary: i best) (simp_all add: try_offer)

lemma candidatesFrom_conv:
  "candidatesFrom item i spaces
     = concat (map (\<lambda>k. spaceCandidates item (i + k) (spaces ! k)) [0..<length spaces])"
proof (induction spaces arbitrary: i)
  case Nil
  show ?case by simp
next
  case (Cons s spaces)
  have "[0..<length (s # spaces)] = 0 # map Suc [0..<length spaces]"
    by (simp add: upt_conv_Cons map_Suc_upt del: upt_Suc)
  then show ?case using Cons.IH [of "Suc i"]
    by (simp add: comp_def del: upt_Suc)
qed

lemma candidates_from_0: "candidates item spaces = candidatesFrom item 0 spaces"
  by (simp add: candidatesFrom_conv candidates_def)

lemma findBestSpace_foldl:
  "findBestSpace item spaces = foldl offer None (candidates item spaces)"
  by (simp add: findBestSpace_def scanSpaces_foldl candidates_from_0)

lemma foldl_offer_None_iff: "foldl offer best cs = None \<longleftrightarrow> best = None \<and> cs = []"
  by (induction cs arbitrary: best) (auto simp: offer_def improves_def split: option.splits)

lemma foldl_offer_firstLowest:
  "cs \<noteq> [] \<Longrightarrow> \<exists>k. firstLowest cs k \<and> foldl offer None cs = Some (cs ! k)"
proof (induction cs rule: rev_induct)
  case Nil
  then show ?case by simp
next
  case (snoc c cs)
  show ?case
  proof (cases "cs = []")
    case True
    then show ?thesis
      by (intro exI [of _ 0]) (simp add: firstLowest_def offer_def improves_def)
  next
    case False
    then obtain k where k: "firstLowest cs k" "foldl offer None cs = Some (cs ! k)"
      using snoc.IH by blast
    then have kl: "k < length cs" by (simp add: firstLowest_def)
    show ?thesis
    proof (cases "scoreOf c < scoreOf (cs ! k)")
      case True
      have "foldl offer None (cs @ [c]) = Some ((cs @ [c]) ! length cs)"
        using True k(2) by (cases "cs ! k") (simp add: offer_def improves_def scoreOf_def)
      moreover have "firstLowest (cs @ [c]) (length cs)"
        using True k(1) by (fastforce simp: firstLowest_def nth_append less_Suc_eq)
      ultimately show ?thesis by blast
    next
      case False
      have "foldl offer None (cs @ [c]) = Some ((cs @ [c]) ! k)"
        using False k(2) kl
        by (cases "cs ! k") (simp add: offer_def improves_def scoreOf_def nth_append)
      moreover have "firstLowest (cs @ [c]) k"
        using False k(1) by (auto simp: firstLowest_def nth_append less_Suc_eq)
      ultimately show ?thesis by blast
    qed
  qed
qed

lemma firstLowest_unique: "firstLowest cs k \<Longrightarrow> firstLowest cs k' \<Longrightarrow> k = k'"
proof (rule ccontr)
  assume a: "firstLowest cs k" "firstLowest cs k'" "k \<noteq> k'"
  then consider "k < k'" | "k' < k" by linarith
  then show False
  proof cases
    case 1
    then have "scoreOf (cs ! k') < scoreOf (cs ! k)" using a(2) by (simp add: firstLowest_def)
    moreover have "scoreOf (cs ! k) \<le> scoreOf (cs ! k')"
      using a(1,2) by (simp add: firstLowest_def)
    ultimately show False by simp
  next
    case 2
    then have "scoreOf (cs ! k) < scoreOf (cs ! k')" using a(1) by (simp add: firstLowest_def)
    moreover have "scoreOf (cs ! k') \<le> scoreOf (cs ! k)"
      using a(1,2) by (simp add: firstLowest_def)
    ultimately show False by simp
  qed
qed

lemma findBestSpace_None_iff:
  "findBestSpace item spaces = None \<longleftrightarrow> candidates item spaces = []"
  by (simp add: findBestSpace_foldl foldl_offer_None_iff)

lemma findBestSpace_Some_iff:
  "findBestSpace item spaces = Some c \<longleftrightarrow>
     (\<exists>k. firstLowest (candidates item spaces) k \<and> candidates item spaces ! k = c)"
proof (cases "candidates item spaces = []")
  case True
  then show ?thesis by (simp add: findBestSpace_foldl firstLowest_def)
next
  case False
  from foldl_offer_firstLowest [OF this] obtain k where
    k: "firstLowest (candidates item spaces) k"
       "findBestSpace item spaces = Some (candidates item spaces ! k)"
    by (auto simp: findBestSpace_foldl)
  show ?thesis
  proof
    assume "findBestSpace item spaces = Some c"
    with k show "\<exists>k. firstLowest (candidates item spaces) k \<and> candidates item spaces ! k = c"
      by auto
  next
    assume "\<exists>k. firstLowest (candidates item spaces) k \<and> candidates item spaces ! k = c"
    then obtain k' where "firstLowest (candidates item spaces) k'"
      "candidates item spaces ! k' = c"
      by blast
    with k firstLowest_unique show "findBestSpace item spaces = Some c" by metis
  qed
qed

lemma candidates_member:
  "(i, rot, sc) \<in> set (candidates item spaces) \<longleftrightarrow>
     i < length spaces \<and> feasible item (spaces ! i) rot \<and>
     (rot \<longrightarrow> length_dim (dimensions item) \<noteq> width_dim (dimensions item)) \<and>
     sc = box_y (spaces ! i) * 1000000 + box_z (spaces ! i) * 1000 + box_x (spaces ! i)"
  by (auto simp: candidates_def spaceCandidates_def orientations_def)

lemma spaceCandidates_order:
  "sorted_wrt earlier (spaceCandidates item i space) \<and>
   (\<forall>c \<in> set (spaceCandidates item i space). fst c = i)"
  by (auto simp: spaceCandidates_def orientations_def earlier_def)

lemma candidatesFrom_order:
  "sorted_wrt earlier (candidatesFrom item i spaces) \<and>
   (\<forall>c \<in> set (candidatesFrom item i spaces). i \<le> fst c)"
proof (induction spaces arbitrary: i)
  case Nil
  show ?case by simp
next
  case (Cons s spaces)
  have "earlier c d" if "c \<in> set (spaceCandidates item i s)"
    "d \<in> set (candidatesFrom item (Suc i) spaces)" for c d
  proof -
    have "fst c = i" using that(1) spaceCandidates_order by blast
    moreover have "Suc i \<le> fst d" using that(2) Cons.IH by blast
    ultimately show ?thesis by (simp add: earlier_def)
  qed
  moreover have "i \<le> fst c" if "c \<in> set (candidatesFrom item (Suc i) spaces)" for c
    using that Cons.IH [of "Suc i"] by auto
  ultimately show ?case
    using Cons.IH [of "Suc i"] spaceCandidates_order [of item i s]
    by (auto simp: sorted_wrt_append)
qed

lemma findBestSpace_fits:
  assumes "findBestSpace item spaces = Some (i, rot, sc)"
  shows "i < length spaces \<and> feasible item (spaces ! i) rot"
proof -
  obtain k where "firstLowest (candidates item spaces) k"
    "candidates item spaces ! k = (i, rot, sc)"
    using assms findBestSpace_Some_iff by blast
  then have "(i, rot, sc) \<in> set (candidates item spaces)"
    by (metis firstLowest_def nth_mem)
  then show ?thesis by (simp add: candidates_member)
qed

text \<open>
  Claim C4. The candidates of an item are, for every free space in list order, the
  unrotated orientation and then, for an item whose length differs from its width, the
  rotated one, each if the three extents of the item fit the space, with the score
  \<open>y * 1000000 + z * 1000 + x\<close> of the space. The scorer finds nothing iff there is no
  candidate, and otherwise returns the first candidate of the lowest score.
\<close>

theorem findBestSpace_first_lowest:
  "(\<forall>i rot sc. (i, rot, sc) \<in> set (candidates item spaces) \<longleftrightarrow>
      i < length spaces \<and>
      (if rot then width_dim (dimensions item) else length_dim (dimensions item))
        \<le> box_l (spaces ! i) \<and>
      height_dim (dimensions item) \<le> box_h (spaces ! i) \<and>
      (if rot then length_dim (dimensions item) else width_dim (dimensions item))
        \<le> box_w (spaces ! i) \<and>
      (rot \<longrightarrow> length_dim (dimensions item) \<noteq> width_dim (dimensions item)) \<and>
      sc = box_y (spaces ! i) * 1000000 + box_z (spaces ! i) * 1000 + box_x (spaces ! i)) \<and>
   sorted_wrt earlier (candidates item spaces) \<and>
   (findBestSpace item spaces = None \<longleftrightarrow> candidates item spaces = []) \<and>
   (\<forall>c. findBestSpace item spaces = Some c \<longleftrightarrow>
      (\<exists>k. firstLowest (candidates item spaces) k \<and> candidates item spaces ! k = c))"
proof -
  have "sorted_wrt earlier (candidates item spaces)"
    using candidatesFrom_order [of item 0 spaces] by (simp add: candidates_from_0)
  then show ?thesis
    using findBestSpace_None_iff [of item spaces] findBestSpace_Some_iff [of item spaces]
    by (auto simp: candidates_member feasible_def)
qed

text \<open>
  The crate of footprint 400 x 300 fits each of the three free spaces of the example in
  both orientations. The two candidates of the first space have the lowest score, 600,
  and the unrotated one comes first.
\<close>

lemma candidates_example:
  "candidates crate [rightBox, frontBox, aboveBox] =
     [(0, False, 600), (0, True, 600), (1, False, 600000), (1, True, 600000),
      (2, False, 600000000), (2, True, 600000000)]"
  by (simp add: candidates_def spaceCandidates_def orientations_def feasible_def crate_def
      rightBox_def frontBox_def aboveBox_def upt_rec)

theorem findBestSpace_first_lowest_witness:
  "findBestSpace crate [rightBox, frontBox, aboveBox] = Some (0, False, 600)"
proof -
  have "firstLowest (candidates crate [rightBox, frontBox, aboveBox]) 0"
    by (auto simp: candidates_example firstLowest_def scoreOf_def nth_Cons')
  moreover have "candidates crate [rightBox, frontBox, aboveBox] ! 0 = (0, False, 600)"
    by (simp add: candidates_example)
  ultimately show ?thesis
    using findBestSpace_first_lowest [of crate "[rightBox, frontBox, aboveBox]"] by blast
qed

section \<open>Free-space manager\<close>

subsection \<open>Split\<close>

lemma splitSpace_fragments:
  assumes "boxIntersect fs p"
  shows "splitSpace p fs = fragments p fs"
proof -
  have r: "box_x p + box_l p < box_x fs + box_l fs \<longleftrightarrow> 0 < box_l (rightSlice p fs)"
    using assms by (auto simp: boxIntersect_def rightSlice_def)
  have l: "box_x p > box_x fs \<longleftrightarrow> 0 < box_l (leftSlice p fs)"
    using assms by (auto simp: boxIntersect_def leftSlice_def)
  have a: "box_y p + box_h p < box_y fs + box_h fs \<longleftrightarrow> 0 < box_h (aboveSlice p fs)"
    using assms by (auto simp: boxIntersect_def aboveSlice_def)
  have f: "box_z p + box_w p < box_z fs + box_w fs \<longleftrightarrow> 0 < box_w (frontSlice p fs)"
    using assms by (auto simp: boxIntersect_def frontSlice_def)
  have b: "box_z p > box_z fs \<longleftrightarrow> 0 < box_w (behindSlice p fs)"
    using assms by (auto simp: boxIntersect_def behindSlice_def)
  have l': "fs\<lparr>box_l := box_x p - box_x fs\<rparr> = leftSlice p fs"
    using assms by (simp add: boxIntersect_def leftSlice_def min_def)
  have b': "fs\<lparr>box_w := box_z p - box_z fs\<rparr> = behindSlice p fs"
    using assms by (simp add: boxIntersect_def behindSlice_def min_def)
  have "splitSpace p fs =
      (if 0 < box_l (rightSlice p fs) then [rightSlice p fs] else [])
      @ (if 0 < box_l (leftSlice p fs) then [leftSlice p fs] else [])
      @ (if 0 < box_h (aboveSlice p fs) then [aboveSlice p fs] else [])
      @ (if 0 < box_w (frontSlice p fs) then [frontSlice p fs] else [])
      @ (if 0 < box_w (behindSlice p fs) then [behindSlice p fs] else [])"
    unfolding splitSpace_def r l a f b l' b' using assms
    by (simp add: rightSlice_def aboveSlice_def frontSlice_def)
  also have "\<dots> = fragments p fs"
    by (simp add: fragments_def)
  finally show ?thesis .
qed

lemma length_fragments: "length (fragments p fs) \<le> 5"
  by (simp add: fragments_def)

lemma splitSpace_top:
  assumes "boxIntersect fs p" "f \<in> set (splitSpace p fs)"
  shows "box_y f + box_h f = box_y fs + box_h fs"
  using assms by (auto simp: splitSpace_def split: if_splits)

lemma splitSpace_not_below:
  assumes "boxIntersect fs p" "f \<in> set (splitSpace p fs)"
  shows "box_y p < box_y f + box_h f"
  using splitSpace_top [OF assms] assms(1) by (simp add: boxIntersect_def)

lemma in_splitSpaces:
  "f \<in> set (splitSpaces spaces p) \<longleftrightarrow> (\<exists>fs \<in> set spaces. f \<in> set (splitSpace p fs))"
  by (auto simp: splitSpaces_def)

text \<open>
  Claim C5. A free space that intersects the placed box is replaced by its fragments:
  of the slices to the right, to the left, above, in front and behind, in this order,
  those of positive extent on their axis. They are at most five, and each reaches above
  the bottom face of the placed box: no fragment lies below it. A free space that does
  not intersect the placed box stays as it is. The split of a list of free spaces is
  the split of each, in order.
\<close>

theorem splitSpace_five_fragments:
  "(boxIntersect fs placedBox \<longrightarrow>
      splitSpace placedBox fs = fragments placedBox fs \<and>
      length (splitSpace placedBox fs) \<le> 5 \<and>
      (\<forall>f \<in> set (splitSpace placedBox fs). box_y placedBox < box_y f + box_h f)) \<and>
   (\<not> boxIntersect fs placedBox \<longrightarrow> splitSpace placedBox fs = [fs]) \<and>
   splitSpaces spaces placedBox = concat (map (splitSpace placedBox) spaces)"
proof -
  have "length (splitSpace placedBox fs) \<le> 5" if "boxIntersect fs placedBox"
    using length_fragments [of placedBox fs] by (simp add: splitSpace_fragments [OF that])
  moreover have "\<not> boxIntersect fs placedBox \<Longrightarrow> splitSpace placedBox fs = [fs]"
    by (simp add: splitSpace_def)
  ultimately show ?thesis
    using splitSpace_fragments [of fs placedBox] splitSpace_not_below [of fs placedBox]
    by (auto simp: splitSpaces_def)
qed

text \<open>
  The cube at the origin of the whole container leaves the slices to its right, above
  it and in front of it; nothing is to its left or behind it.
\<close>

theorem splitSpace_five_fragments_witness:
  "boxIntersect wholeBox cubeBox \<and>
   fragments cubeBox wholeBox = [rightBox, aboveBox, frontBox] \<and>
   box_y cubeBox < box_y aboveBox + box_h aboveBox"
proof -
  have "aboveBox \<in> set (splitSpace cubeBox wholeBox)" by (simp add: split_example)
  then show ?thesis
    using splitSpace_five_fragments [of wholeBox cubeBox "[]"] intersect_example
    by (simp add: split_example)
qed

subsection \<open>Cleanup\<close>

lemma isContained_iff:
  "isContained i inner j bs \<longleftrightarrow> (\<exists>k<length bs. j + k \<noteq> i \<and> contains (bs ! k) inner)"
proof (induction bs arbitrary: j)
  case Nil
  show ?case by simp
next
  case (Cons b bs)
  have ex: "(\<exists>k<Suc (length bs). P k) \<longleftrightarrow> P 0 \<or> (\<exists>k<length bs. P (Suc k))" for P
    by (metis less_Suc_eq_0_disj)
  show ?case using Cons.IH [of "Suc j"] by (auto simp: ex)
qed

lemma containedInAnother_iff:
  "containedInAnother bs i \<longleftrightarrow> (\<exists>j<length bs. j \<noteq> i \<and> contains (bs ! j) (bs ! i))"
  by (auto simp: containedInAnother_def list_ex_iff)

lemma cleanupLoop_conv:
  "cleanupLoop v i rest
     = map (\<lambda>k. rest ! k) (filter (\<lambda>k. \<not> isContained (i + k) (rest ! k) 0 v) [0..<length rest])"
proof (induction rest arbitrary: i)
  case Nil
  show ?case by simp
next
  case (Cons s rest)
  have "[0..<length (s # rest)] = 0 # map Suc [0..<length rest]"
    by (simp add: upt_conv_Cons map_Suc_upt del: upt_Suc)
  then show ?case using Cons.IH [of "Suc i"]
    by (simp add: filter_map comp_def del: upt_Suc)
qed

lemma validSize_survivors: "filter validSize bs = survivors bs"
  unfolding survivors_def
  by (rule filter_cong [OF refl]) (auto simp: validSize_def MIN_DIM_def)

lemma cleanupSpaces_spec: "cleanupSpaces spaces = cleanup_spec (sortBy compareSpaces spaces)"
proof -
  let ?v = "survivors (sortBy compareSpaces spaces)"
  have "\<not> isContained k (?v ! k) 0 ?v \<longleftrightarrow> \<not> containedInAnother ?v k" for k
    by (simp add: isContained_iff containedInAnother_iff)
  then show ?thesis
    by (simp add: cleanupSpaces_def Let_def validSize_survivors cleanupLoop_conv cleanup_spec_def)
qed

lemma cleanup_spec_result:
  assumes "i < length (cleanup_spec bs)"
  shows "cleanup_spec bs ! i \<in> set bs \<and> 50 \<le> box_l (cleanup_spec bs ! i) \<and>
         50 \<le> box_h (cleanup_spec bs ! i) \<and> 50 \<le> box_w (cleanup_spec bs ! i) \<and>
         (\<forall>j<length (cleanup_spec bs). j \<noteq> i \<longrightarrow>
            \<not> contains (cleanup_spec bs ! j) (cleanup_spec bs ! i))"
proof -
  let ?s = "survivors bs"
  let ?idx = "filter (\<lambda>i. \<not> containedInAnother ?s i) [0..<length ?s]"
  have len: "length (cleanup_spec bs) = length ?idx" by (simp add: cleanup_spec_def)
  have nth: "cleanup_spec bs ! k = ?s ! (?idx ! k)" if "k < length ?idx" for k
    using that by (simp add: cleanup_spec_def)
  have mem: "?idx ! k < length ?s \<and> \<not> containedInAnother ?s (?idx ! k)"
    if "k < length ?idx" for k
    using nth_mem [OF that] by simp
  have d: "distinct ?idx" by simp
  have i: "i < length ?idx" using assms len by simp
  have "?s ! (?idx ! i) \<in> set ?s" using mem [OF i] by simp
  then have in_s: "cleanup_spec bs ! i \<in> set ?s" using nth [OF i] by simp
  then have 1: "cleanup_spec bs ! i \<in> set bs \<and> 50 \<le> box_l (cleanup_spec bs ! i) \<and>
         50 \<le> box_h (cleanup_spec bs ! i) \<and> 50 \<le> box_w (cleanup_spec bs ! i)"
    by (auto simp: survivors_def)
  have 2: "\<not> contains (cleanup_spec bs ! j) (cleanup_spec bs ! i)"
    if "j < length (cleanup_spec bs)" "j \<noteq> i" for j
  proof -
    have j: "j < length ?idx" using that len by simp
    have "?idx ! j \<noteq> ?idx ! i" using d i j that(2) by (simp add: nth_eq_iff_index_eq)
    moreover have "?idx ! j < length ?s" using mem [OF j] by simp
    ultimately have "\<not> contains (?s ! (?idx ! j)) (?s ! (?idx ! i))"
      using mem [OF i] by (auto simp: containedInAnother_iff)
    then show ?thesis by (simp add: nth [OF i] nth [OF j])
  qed
  show ?thesis using 1 2 by blast
qed

lemma set_cleanupSpaces: "set (cleanupSpaces spaces) \<subseteq> set spaces"
proof
  fix b assume "b \<in> set (cleanupSpaces spaces)"
  then obtain i where "i < length (cleanupSpaces spaces)" "cleanupSpaces spaces ! i = b"
    by (auto simp: in_set_conv_nth)
  then show "b \<in> set spaces"
    using cleanup_spec_result [of i "sortBy compareSpaces spaces"]
    by (simp add: cleanupSpaces_spec set_sortBy)
qed

text \<open>
  Claim C6. Cleanup works on a permutation of its input (the boxes sorted by y, z and
  x). It first discards every box with an extent below 50 and then, among the boxes that
  survive, every box that another survivor contains. Every box of the result is a box
  of the input, has its three extents at least 50, and is contained in no other box of
  the result.
\<close>

theorem cleanupSpaces_prunes:
  "cleanupSpaces spaces = cleanup_spec (sortBy compareSpaces spaces) \<and>
   mset (sortBy compareSpaces spaces) = mset spaces \<and>
   (\<forall>i<length (cleanupSpaces spaces).
      cleanupSpaces spaces ! i \<in> set spaces \<and>
      50 \<le> box_l (cleanupSpaces spaces ! i) \<and>
      50 \<le> box_h (cleanupSpaces spaces ! i) \<and>
      50 \<le> box_w (cleanupSpaces spaces ! i) \<and>
      (\<forall>j<length (cleanupSpaces spaces). j \<noteq> i \<longrightarrow>
         \<not> contains (cleanupSpaces spaces ! j) (cleanupSpaces spaces ! i)))"
proof -
  have "\<forall>i<length (cleanupSpaces spaces).
      cleanupSpaces spaces ! i \<in> set spaces \<and>
      50 \<le> box_l (cleanupSpaces spaces ! i) \<and>
      50 \<le> box_h (cleanupSpaces spaces ! i) \<and>
      50 \<le> box_w (cleanupSpaces spaces ! i) \<and>
      (\<forall>j<length (cleanupSpaces spaces). j \<noteq> i \<longrightarrow>
         \<not> contains (cleanupSpaces spaces ! j) (cleanupSpaces spaces ! i))"
    using cleanup_spec_result [of _ "sortBy compareSpaces spaces"]
    by (simp add: cleanupSpaces_spec set_sortBy)
  then show ?thesis by (simp add: cleanupSpaces_spec mset_sortBy)
qed

text \<open>
  Of five boxes the sliver of length 40 goes in the first pass and the box inside
  \<open>rightBox\<close> in the second; the three others stay, and none contains another.
\<close>

lemma cleanup_five:
  "cleanupSpaces [rightBox, sliverBox, aboveBox, innerBox, frontBox]
     = [rightBox, frontBox, aboveBox]"
proof -
  have "sortBy compareSpaces [rightBox, sliverBox, aboveBox, innerBox, frontBox]
          = [sliverBox, rightBox, innerBox, frontBox, aboveBox]"
    by (simp add: sortBy_def compareSpaces_def rightBox_def aboveBox_def frontBox_def
        sliverBox_def innerBox_def)
  then show ?thesis
    unfolding cleanupSpaces_def Let_def
    by (simp add: validSize_def MIN_DIM_def contains_def rightBox_def aboveBox_def
        frontBox_def sliverBox_def innerBox_def)
qed

theorem cleanupSpaces_prunes_witness:
  "cleanupSpaces [rightBox, sliverBox, aboveBox, innerBox, frontBox]
     = [rightBox, frontBox, aboveBox] \<and>
   50 \<le> box_l rightBox \<and> \<not> contains frontBox rightBox \<and> \<not> contains aboveBox rightBox"
proof -
  let ?out = "[rightBox, frontBox, aboveBox]"
  have c6: "\<forall>i<length ?out. 50 \<le> box_l (?out ! i) \<and>
      (\<forall>j<length ?out. j \<noteq> i \<longrightarrow> \<not> contains (?out ! j) (?out ! i))"
    using cleanupSpaces_prunes [of "[rightBox, sliverBox, aboveBox, innerBox, frontBox]"]
    unfolding cleanup_five by blast
  have a: "50 \<le> box_l (?out ! 0)"
    and b: "\<forall>j<length ?out. j \<noteq> 0 \<longrightarrow> \<not> contains (?out ! j) (?out ! 0)"
    using c6 [rule_format, of 0] by simp_all
  have "\<not> contains (?out ! 1) (?out ! 0)" "\<not> contains (?out ! 2) (?out ! 0)"
    using b [rule_format, of 1] b [rule_format, of 2] by simp_all
  then show ?thesis using a by (simp add: cleanup_five)
qed

section \<open>Trial runner\<close>

subsection \<open>One turn of the loop\<close>

lemma packItem_None:
  assumes "findBestSpace item (freeSpaces st) = None"
  shows "packItem st item =
     st\<lparr>placedItems := placedItems st @ [item\<lparr>position := (0, -9999, 0), isValid := False\<rparr>]\<rparr>"
  using assms by (simp add: packItem_def)

lemma packItem_Some:
  assumes "findBestSpace item (freeSpaces st) = Some (i, rot, sc)"
  shows "packItem st item =
     \<lparr>freeSpaces = cleanupSpaces (splitSpaces (freeSpaces st)
                      (placedBoxOf item (freeSpaces st ! i) rot)),
      placedItems = placedItems st @ [newItemOf item (freeSpaces st ! i) rot],
      totalPackedVol = totalPackedVol st
                       + volume (dimensions (newItemOf item (freeSpaces st ! i) rot))\<rparr>"
  using assms by (simp add: packItem_def Let_def)

text \<open>
  A property of boxes that passes from a free space to the boxes of its split holds
  for the free spaces of a trial throughout, once it holds for the container box.
\<close>

lemma freeSpaces_packItem:
  assumes split: "\<And>fs f p. P fs \<Longrightarrow> f \<in> set (splitSpace p fs) \<Longrightarrow> P f"
    and st: "\<forall>fs \<in> set (freeSpaces st). P fs"
  shows "\<forall>fs \<in> set (freeSpaces (packItem st item)). P fs"
proof (cases "findBestSpace item (freeSpaces st)")
  case None
  show ?thesis using st by (simp add: packItem_None [OF None])
next
  case (Some best)
  obtain i rot sc where best: "best = (i, rot, sc)" by (cases best)
  note found = Some [unfolded best]
  let ?p = "placedBoxOf item (freeSpaces st ! i) rot"
  show ?thesis
  proof
    fix f assume "f \<in> set (freeSpaces (packItem st item))"
    then have "f \<in> set (splitSpaces (freeSpaces st) ?p)"
      using set_cleanupSpaces by (auto simp: packItem_Some [OF found])
    then obtain fs where "fs \<in> set (freeSpaces st)" "f \<in> set (splitSpace ?p fs)"
      by (auto simp: in_splitSpaces)
    then show "P f" using st split by blast
  qed
qed

lemma freeSpaces_foldl:
  assumes split: "\<And>fs f p. P fs \<Longrightarrow> f \<in> set (splitSpace p fs) \<Longrightarrow> P f"
  shows "\<forall>fs \<in> set (freeSpaces st). P fs \<Longrightarrow>
         \<forall>fs \<in> set (freeSpaces (foldl packItem st its)). P fs"
proof (induction its arbitrary: st)
  case Nil
  then show ?case by simp
next
  case (Cons a its)
  have "\<forall>fs \<in> set (freeSpaces (packItem st a)). P fs"
    using split Cons.prems by (rule freeSpaces_packItem)
  then show ?case using Cons.IH by simp
qed

subsection \<open>Free spaces stay inside the container\<close>

lemma splitSpace_within:
  assumes "withinContainer c fs" "f \<in> set (splitSpace p fs)"
  shows "withinContainer c f"
  using assms by (auto simp: splitSpace_def withinContainer_def boxIntersect_def split: if_splits)

lemma splitSpace_positive:
  assumes "positiveExtents fs" "f \<in> set (splitSpace p fs)"
  shows "positiveExtents f"
  using assms by (auto simp: splitSpace_def positiveExtents_def boxIntersect_def split: if_splits)

lemma splitSpace_ok:
  assumes "spaceOk c fs" "f \<in> set (splitSpace p fs)"
  shows "spaceOk c f"
  using assms splitSpace_within splitSpace_positive unfolding spaceOk_def by blast

lemma initial_ok: "\<forall>b \<in> set (freeSpaces (initialState c)). spaceOk c b"
  by (simp add: initialState_def spaceOk_def withinContainer_def positiveExtents_def
      positiveDims_def)

lemma packAll_ok: "\<forall>b \<in> set (freeSpaces (packAll c its)). spaceOk c b"
  unfolding packAll_def using splitSpace_ok initial_ok by (rule freeSpaces_foldl)

text \<open>
  Claim C10, as the code has it. The free-space list of a trial starts with the box of
  the whole container. A free space is inside the container when its origin coordinates are at least 0 and
  origin plus extent does not exceed the length, height and width of the container; its
  extents are positive when the dimensions of the container are. This holds for the
  initial box, the split and the cleanup preserve it, and so it holds for every box of
  the free-space list after any number \<open>n\<close> of items of a trial.
\<close>

theorem freeSpaces_stay_inside:
  "(\<forall>b \<in> set (freeSpaces (initialState c)). spaceOk c b) \<and>
   (\<forall>spaces p. (\<forall>b \<in> set spaces. spaceOk c b) \<longrightarrow>
      (\<forall>b \<in> set (splitSpaces spaces p). spaceOk c b)) \<and>
   (\<forall>spaces. (\<forall>b \<in> set spaces. spaceOk c b) \<longrightarrow>
      (\<forall>b \<in> set (cleanupSpaces spaces). spaceOk c b)) \<and>
   (\<forall>itemsToPack n. \<forall>b \<in> set (freeSpaces (packAll c (take n itemsToPack))). spaceOk c b)"
proof -
  have "\<forall>b \<in> set (splitSpaces spaces p). spaceOk c b"
    if "\<forall>b \<in> set spaces. spaceOk c b" for spaces p
  proof
    fix b assume "b \<in> set (splitSpaces spaces p)"
    then obtain fs where "fs \<in> set spaces" "b \<in> set (splitSpace p fs)"
      by (auto simp: in_splitSpaces)
    then show "spaceOk c b" using that splitSpace_ok by blast
  qed
  moreover have "\<forall>b \<in> set (cleanupSpaces spaces). spaceOk c b"
    if "\<forall>b \<in> set spaces. spaceOk c b" for spaces
    using that set_cleanupSpaces by blast
  ultimately show ?thesis using initial_ok packAll_ok by blast
qed

text \<open>
  After the first cube the three free spaces of the example are inside the container of
  side 1000, with positive extents.
\<close>

theorem freeSpaces_stay_inside_witness:
  "freeSpaces (packAll container1000 (take 1 [cube600 ''a'', cube600 ''b'']))
     = [rightBox, frontBox, aboveBox] \<and>
   withinContainer container1000 rightBox \<and> positiveExtents rightBox \<and>
   withinContainer container1000 frontBox \<and> positiveExtents frontBox \<and>
   withinContainer container1000 aboveBox \<and> positiveExtents aboveBox"
proof -
  have free1: "freeSpaces (packAll container1000 [cube600 ''a''])
     = [rightBox, frontBox, aboveBox]"
    by (simp add: packAll_def packItem_first)
  then have free: "freeSpaces (packAll container1000 (take 1 [cube600 ''a'', cube600 ''b'']))
     = [rightBox, frontBox, aboveBox]"
    by simp
  have "\<forall>b \<in> set (freeSpaces (packAll container1000 (take 1 [cube600 ''a'', cube600 ''b'']))).
      spaceOk container1000 b"
    using freeSpaces_stay_inside [of container1000] by blast
  then have ok: "\<forall>b \<in> set [rightBox, frontBox, aboveBox]. spaceOk container1000 b"
    by (simp only: free)
  have "positiveDims container1000"
    by (simp add: positiveDims_def container1000_def)
  then show ?thesis using ok by (simp add: free1 spaceOk_def)
qed

text \<open>
  Outside the data model: the free space of a container of length 0 has no positive
  extent along x.
\<close>

theorem freeSpaces_flat_container_counterexample:
  "freeSpaces (packAll flatContainer [])
     = [\<lparr>box_x = 0, box_y = 0, box_z = 0, box_l = 0, box_h = 1000, box_w = 1000\<rparr>] \<and>
   \<not> positiveExtents (freeSpaces (packAll flatContainer []) ! 0)"
  by (simp add: packAll_def initialState_def flatContainer_def positiveExtents_def)

section \<open>Staging arranger\<close>

subsection \<open>The loop as a fold over its state\<close>

lemma stagingFrom_Nil: "stagingFrom st [] = []"
  by (simp add: stagingFrom_def split: prod.splits)

lemma stagingFrom_Cons:
  "stagingFrom st (a # rest) =
     a\<lparr>position := stagingPos st a, isValid := True\<rparr> # stagingFrom (stagingNext st a) rest"
  by (simp add: stagingFrom_def stagingPos_def stagingNext_def Let_def split: prod.splits)

lemma stagingFrom_append:
  "stagingFrom st (xs @ ys) = stagingFrom st xs @ stagingFrom (foldl stagingNext st xs) ys"
  by (induction xs arbitrary: st) (simp_all add: stagingFrom_Nil stagingFrom_Cons)

lemma length_stagingFrom: "length (stagingFrom st xs) = length xs"
  by (induction xs arbitrary: st) (simp_all add: stagingFrom_Nil stagingFrom_Cons)

lemma take_stagingFrom: "take n (stagingFrom st xs) = stagingFrom st (take n xs)"
proof -
  have "stagingFrom st xs = stagingFrom st (take n xs) @
          stagingFrom (foldl stagingNext st (take n xs)) (drop n xs)"
    using stagingFrom_append [of st "take n xs" "drop n xs"] by simp
  then show ?thesis
    by (cases "n \<le> length xs") (simp_all add: length_stagingFrom stagingFrom_Nil)
qed

lemma nth_stagingFrom:
  assumes "k < length xs"
  shows "stagingFrom st xs ! k =
           (xs ! k)\<lparr>position := stagingPos (foldl stagingNext st (take k xs)) (xs ! k),
                    isValid := True\<rparr>"
proof -
  have "xs = take k xs @ xs ! k # drop (Suc k) xs"
    using assms by (simp add: id_take_nth_drop)
  then have "stagingFrom st xs = stagingFrom st (take k xs) @
      (xs ! k)\<lparr>position := stagingPos (foldl stagingNext st (take k xs)) (xs ! k),
               isValid := True\<rparr>
      # stagingFrom (stagingNext (foldl stagingNext st (take k xs)) (xs ! k)) (drop (Suc k) xs)"
    using stagingFrom_append [of st "take k xs" "xs ! k # drop (Suc k) xs"]
    by (simp add: stagingFrom_Cons)
  moreover have "length (stagingFrom st (take k xs)) = k"
    using assms by (simp add: length_stagingFrom)
  ultimately show ?thesis by (metis nth_append_length)
qed

lemma arrangeStaging_from: "arrangeStaging its c = stagingFrom (0, stagingZStart c, 0) its"
  by (simp add: arrangeStaging_def stagingFrom_def)

subsection \<open>What the state holds after a prefix of the items\<close>

lemma widthsAt_snoc:
  "widthsAt z (out @ [a]) =
     (if pos_z (position a) = z then insert (width_dim (dimensions a)) (widthsAt z out)
      else widthsAt z out)"
  by (auto simp: widthsAt_def)

lemma widthsAt_empty: "\<forall>it \<in> set out. pos_z (position it) < z \<Longrightarrow> widthsAt z out = {}"
  by (auto simp: widthsAt_def filter_empty_conv)

lemma finite_widthsAt: "finite (widthsAt z out)"
  by (simp add: widthsAt_def)

lemma max_Max_insert:
  "finite S \<Longrightarrow> max 0 (Max (insert w S)) = max (Max (insert (0::real) S)) w"
  by (cases "S = {}") (simp_all add: max.commute max.left_commute)

lemma stagingInv_step:
  assumes "stagingInv z0 out st"
  shows "stagingInv z0 (out @ [a\<lparr>position := stagingPos st a, isValid := True\<rparr>])
           (stagingNext st a)"
proof -
  obtain cx cz mz where st: "st = (cx, cz, mz)" by (cases st)
  have inv: "\<forall>it \<in> set out. pos_z (position it) \<le> cz" "mz = Max (insert 0 (widthsAt cz out))"
    "z0 \<le> cz"
    using assms by (simp_all add: stagingInv_def st)
  have mz0: "0 \<le> mz" using inv(2) finite_widthsAt by simp
  show ?thesis
  proof (cases "cx + length_dim (dimensions a) > stagingWidthLimit")
    case True
    have "\<forall>it \<in> set out. pos_z (position it) < cz + (mz + spacing)"
      using inv(1) mz0 by (fastforce simp: spacing_def)
    then have "widthsAt (cz + (mz + spacing)) out = {}" by (rule widthsAt_empty)
    then show ?thesis using True inv mz0
      by (auto simp: stagingInv_def st stagingPos_def stagingNext_def widthsAt_snoc pos_z_def
          pos_x_def spacing_def max.commute)
  next
    case False
    then show ?thesis using inv
      by (auto simp: stagingInv_def st stagingPos_def stagingNext_def widthsAt_snoc pos_z_def
          pos_x_def max_Max_insert finite_widthsAt)
  qed
qed

lemma stagingInv_prefix:
  "stagingInv z0 (stagingFrom (0, z0, 0) xs) (foldl stagingNext (0, z0, 0) xs)"
proof (induction xs rule: rev_induct)
  case Nil
  show ?case by (simp add: stagingFrom_Nil stagingInv_def widthsAt_def)
next
  case (snoc a xs)
  show ?case using stagingInv_step [OF snoc.IH, of a]
    by (simp add: stagingFrom_append stagingFrom_Cons stagingFrom_Nil)
qed

lemma stagingInv_take:
  "stagingInv z0 (take n (stagingFrom (0, z0, 0) xs)) (foldl stagingNext (0, z0, 0) (take n xs))"
  using stagingInv_prefix [of z0 "take n xs"] by (simp add: take_stagingFrom)

subsection \<open>Where the items go\<close>

lemma pos_y_stagingPos: "pos_y (stagingPos st a) = 0"
  by (cases st) (simp add: stagingPos_def pos_y_def)

lemma staging_z_lower:
  assumes "stagingInv z0 out st"
  shows "z0 \<le> pos_z (stagingPos st a)"
proof -
  obtain cx cz mz where st: "st = (cx, cz, mz)" by (cases st)
  have "z0 \<le> cz" "mz = Max (insert 0 (widthsAt cz out))"
    using assms by (simp_all add: stagingInv_def st)
  moreover have "0 \<le> Max (insert 0 (widthsAt cz out))" using finite_widthsAt by simp
  ultimately show ?thesis by (simp add: st stagingPos_def pos_z_def spacing_def)
qed

lemma staging_item:
  assumes "k < length its"
  shows "arrangeStaging its c ! k
           = (its ! k)\<lparr>position := position (arrangeStaging its c ! k), isValid := True\<rparr>"
    and "pos_y (position (arrangeStaging its c ! k)) = 0"
    and "width_dim c + 1500 \<le> pos_z (position (arrangeStaging its c ! k))"
proof -
  let ?st = "foldl stagingNext (0, stagingZStart c, 0) (take k its)"
  have nth: "arrangeStaging its c ! k
               = (its ! k)\<lparr>position := stagingPos ?st (its ! k), isValid := True\<rparr>"
    using nth_stagingFrom [OF assms] by (simp add: arrangeStaging_from)
  show "arrangeStaging its c ! k
          = (its ! k)\<lparr>position := position (arrangeStaging its c ! k), isValid := True\<rparr>"
    by (simp add: nth)
  show "pos_y (position (arrangeStaging its c ! k)) = 0"
    by (simp add: nth pos_y_stagingPos)
  show "width_dim c + 1500 \<le> pos_z (position (arrangeStaging its c ! k))"
    using staging_z_lower [OF stagingInv_take [of "stagingZStart c" k its], of "its ! k"]
    by (simp add: nth stagingZStart_def)
qed

lemma staging_first:
  assumes "its \<noteq> []"
  shows "position (arrangeStaging its c ! 0) =
     (0, 0, if 15000 < length_dim (dimensions (its ! 0))
            then width_dim c + 1500 + 100 else width_dim c + 1500)"
proof -
  have "0 < length its" using assms by simp
  from nth_stagingFrom [OF this] show ?thesis
    by (simp add: arrangeStaging_from stagingPos_def stagingZStart_def stagingWidthLimit_def
        spacing_def)
qed

lemma staging_next:
  assumes "Suc k < length its" and out: "out = arrangeStaging its c"
  shows "if 15000 < pos_x (position (out ! k)) + (length_dim (dimensions (its ! k)) + 100)
            + length_dim (dimensions (its ! Suc k))
         then pos_x (position (out ! Suc k)) = 0 \<and>
              pos_z (position (out ! Suc k))
                = pos_z (position (out ! k)) + (max 0 (rowDepth out k) + 100)
         else pos_x (position (out ! Suc k))
                = pos_x (position (out ! k)) + (length_dim (dimensions (its ! k)) + 100) \<and>
              pos_z (position (out ! Suc k)) = pos_z (position (out ! k))"
proof -
  let ?st = "foldl stagingNext (0, stagingZStart c, 0) (take (Suc k) its)"
  obtain cx cz mz where st: "?st = (cx, cz, mz)" by (cases ?st)
  have k: "k < length its" using assms(1) by simp
  have len: "length out = length its" by (simp add: out arrangeStaging_from length_stagingFrom)
  have ne: "take (Suc k) out \<noteq> []" using k len by auto
  have last: "last (take (Suc k) out) = out ! k"
    using k len by (simp add: take_Suc_conv_app_nth)
  have dims: "dimensions (out ! k) = dimensions (its ! k)"
  proof -
    have "dimensions (out ! k) =
       dimensions ((its ! k)\<lparr>position := position (out ! k), isValid := True\<rparr>)"
      using staging_item(1) [OF k, of c] by (simp add: out)
    then show ?thesis by simp
  qed
  have inv: "stagingInv (stagingZStart c) (take (Suc k) out) (cx, cz, mz)"
    using stagingInv_take [of "stagingZStart c" "Suc k" its]
    by (simp add: out arrangeStaging_from st)
  have cz: "cz = pos_z (position (out ! k))"
    and cx: "cx = pos_x (position (out ! k)) + (length_dim (dimensions (its ! k)) + 100)"
    and mz: "mz = Max (insert 0 (widthsAt cz (take (Suc k) out)))"
    using inv ne by (simp_all add: stagingInv_def last dims spacing_def)
  have "out ! k \<in> set (take (Suc k) out)" using last ne by (metis last_in_set)
  then have "width_dim (dimensions (out ! k)) \<in> widthsAt cz (take (Suc k) out)"
    by (simp add: widthsAt_def cz)
  then have "widthsAt cz (take (Suc k) out) \<noteq> {}" by blast
  then have "mz = max 0 (Max (widthsAt cz (take (Suc k) out)))"
    using finite_widthsAt by (simp add: mz)
  then have depth: "mz = max 0 (rowDepth out k)"
    by (simp add: cz rowDepth_def rowOf_def widthsAt_def)
  have nth: "out ! Suc k
      = (its ! Suc k)\<lparr>position := stagingPos (cx, cz, mz) (its ! Suc k), isValid := True\<rparr>"
    using nth_stagingFrom [OF assms(1)] by (simp add: out arrangeStaging_from st)
  have px: "pos_x (position (out ! Suc k))
              = (if 15000 < cx + length_dim (dimensions (its ! Suc k)) then 0 else cx)"
    and pz: "pos_z (position (out ! Suc k))
              = (if 15000 < cx + length_dim (dimensions (its ! Suc k))
                 then cz + (mz + 100) else cz)"
    by (simp_all add: nth stagingPos_def pos_x_def pos_z_def stagingWidthLimit_def spacing_def)
  show ?thesis unfolding px pz unfolding depth cx cz by simp
qed

subsection \<open>Staged items do not meet\<close>

lemma boxIntersect_sym: "boxIntersect a b \<longleftrightarrow> boxIntersect b a"
  by (auto simp: boxIntersect_def)

lemma overlap_boxIntersect: "overlap (targetOf a) b \<Longrightarrow> boxIntersect (itemBox a) (itemBox b)"
  by (simp add: overlap_def targetOf_def boxIntersect_def itemBox_def epsilon_def Let_def)

lemma pairwise_no_overlap:
  assumes "sorted_wrt (\<lambda>a b. \<not> boxIntersect (itemBox a) (itemBox b)) xs"
    "i < length xs" "j < length xs" "i \<noteq> j"
  shows "\<not> overlap (targetOf (xs ! i)) (xs ! j)"
proof (cases "i < j")
  case True
  have "\<not> boxIntersect (itemBox (xs ! i)) (itemBox (xs ! j))"
    using sorted_wrt_nth_less [OF assms(1) True assms(3)] .
  then show ?thesis using overlap_boxIntersect by blast
next
  case False
  then have "j < i" using assms(4) by simp
  then have "\<not> boxIntersect (itemBox (xs ! j)) (itemBox (xs ! i))"
    using sorted_wrt_nth_less [OF assms(1) _ assms(2)] by blast
  then show ?thesis using overlap_boxIntersect boxIntersect_sym by blast
qed

text \<open>
  An item the loop lays later stands in the current row at or beyond \<^verbatim>\<open>currentX\<close>, or in
  a later row, which starts beyond the depth of the current one.
\<close>

lemma staging_later:
  assumes "\<forall>i \<in> set its. 0 \<le> length_dim (dimensions i)"
    "it \<in> set (stagingLoop cx cz mz its)"
  shows "(pos_z (position it) = cz \<and> cx \<le> pos_x (position it)) \<or>
         cz + (mz + spacing) \<le> pos_z (position it)"
  using assms
proof (induction its arbitrary: cx cz mz)
  case Nil
  then show ?case by simp
next
  case (Cons a its)
  let ?wrap = "cx + length_dim (dimensions a) > stagingWidthLimit"
  let ?cx1 = "if ?wrap then 0 else cx"
  let ?cz1 = "if ?wrap then cz + (mz + spacing) else cz"
  let ?mz1 = "if ?wrap then 0 else mz"
  let ?head = "a\<lparr>position := (?cx1, 0, ?cz1), isValid := True\<rparr>"
  let ?rest = "stagingLoop (?cx1 + (length_dim (dimensions a) + spacing)) ?cz1
                 (max ?mz1 (width_dim (dimensions a))) its"
  have a0: "0 \<le> length_dim (dimensions a)" using Cons.prems(1) by simp
  from Cons.prems(2) have "it = ?head \<or> it \<in> set ?rest" by (simp add: Let_def)
  then show ?case
  proof
    assume "it = ?head"
    then show ?thesis by (simp add: pos_x_def pos_z_def)
  next
    assume "it \<in> set ?rest"
    then have "(pos_z (position it) = ?cz1 \<and>
                  ?cx1 + (length_dim (dimensions a) + spacing) \<le> pos_x (position it)) \<or>
               ?cz1 + (max ?mz1 (width_dim (dimensions a)) + spacing) \<le> pos_z (position it)"
      using Cons.IH Cons.prems(1) by simp
    then show ?thesis using a0 by (auto simp: spacing_def split: if_splits)
  qed
qed

lemma staging_disjoint:
  assumes "\<forall>i \<in> set its. 0 \<le> length_dim (dimensions i)"
  shows "sorted_wrt (\<lambda>a b. \<not> boxIntersect (itemBox a) (itemBox b)) (stagingLoop cx cz mz its)"
  using assms
proof (induction its arbitrary: cx cz mz)
  case Nil
  show ?case by simp
next
  case (Cons a its)
  let ?wrap = "cx + length_dim (dimensions a) > stagingWidthLimit"
  let ?cx1 = "if ?wrap then 0 else cx"
  let ?cz1 = "if ?wrap then cz + (mz + spacing) else cz"
  let ?mz1 = "if ?wrap then 0 else mz"
  let ?head = "a\<lparr>position := (?cx1, 0, ?cz1), isValid := True\<rparr>"
  let ?rest = "stagingLoop (?cx1 + (length_dim (dimensions a) + spacing)) ?cz1
                 (max ?mz1 (width_dim (dimensions a))) its"
  have its: "\<forall>i \<in> set its. 0 \<le> length_dim (dimensions i)" using Cons.prems by simp
  have "\<not> boxIntersect (itemBox ?head) (itemBox it)" if "it \<in> set ?rest" for it
  proof -
    have "(pos_z (position it) = ?cz1 \<and>
             ?cx1 + (length_dim (dimensions a) + spacing) \<le> pos_x (position it)) \<or>
          ?cz1 + (max ?mz1 (width_dim (dimensions a)) + spacing) \<le> pos_z (position it)"
      using staging_later [OF its that] .
    then show ?thesis
      by (auto simp: boxIntersect_def itemBox_def pos_x_def pos_z_def spacing_def
          split: if_splits)
  qed
  moreover have "sorted_wrt (\<lambda>a b. \<not> boxIntersect (itemBox a) (itemBox b)) ?rest"
    using Cons.IH [OF its] .
  ultimately show ?case by (simp add: Let_def)
qed

lemma arrangeStaging_disjoint:
  "\<forall>i \<in> set its. 0 \<le> length_dim (dimensions i) \<Longrightarrow>
   sorted_wrt (\<lambda>a b. \<not> boxIntersect (itemBox a) (itemBox b)) (arrangeStaging its c)"
  by (simp add: arrangeStaging_def staging_disjoint)

lemma length_arrangeStaging: "length (arrangeStaging its c) = length its"
  by (simp add: arrangeStaging_from length_stagingFrom)

lemma rowDepth_ge:
  assumes "k < length its"
  shows "width_dim (dimensions (its ! k)) \<le> rowDepth (arrangeStaging its c) k"
proof -
  let ?out = "arrangeStaging its c"
  have k: "k < length ?out" using assms by (simp add: length_arrangeStaging)
  have "dimensions (?out ! k) =
       dimensions ((its ! k)\<lparr>position := position (?out ! k), isValid := True\<rparr>)"
    using staging_item(1) [OF assms, of c] by simp
  then have dims: "dimensions (?out ! k) = dimensions (its ! k)" by simp
  have "?out ! k \<in> set (take (Suc k) ?out)"
    using k by (simp add: take_Suc_conv_app_nth)
  then have "?out ! k \<in> set (rowOf ?out k)" by (simp add: rowOf_def)
  then have "width_dim (dimensions (?out ! k))
      \<in> set (map (\<lambda>it. width_dim (dimensions it)) (rowOf ?out k))"
    by simp
  then show ?thesis unfolding rowDepth_def dims [symmetric] by (intro Max_ge) simp_all
qed

text \<open>
  Claim C9, as the code has it. The staged list has one item for each input item, in
  order, with nothing but position and validity flag changed: the flag is set, the item
  stands on the floor (\<open>y = 0\<close>) and at least 1500 beyond the far z-face of the
  container. The first item opens the first row at \<open>x = 0\<close> (a row further when it is
  longer than the limit of 15000 by itself). The next item follows in the row with a
  spacing of 100; when its length would pass the limit it opens a new row at \<open>x = 0\<close>,
  beyond the row just filled by the depth of that row and the spacing; the depth is the
  largest footprint width of the row, or 0 when that is negative, which no width of the
  data model is. When no item has a negative length, no two staged items overlap.
\<close>

theorem arrangeStaging_layout:
  "length (arrangeStaging its c) = length its \<and>
   (\<forall>k<length its.
      arrangeStaging its c ! k
        = (its ! k)\<lparr>position := position (arrangeStaging its c ! k), isValid := True\<rparr> \<and>
      isValid (arrangeStaging its c ! k) \<and>
      pos_y (position (arrangeStaging its c ! k)) = 0 \<and>
      width_dim c + 1500 \<le> pos_z (position (arrangeStaging its c ! k))) \<and>
   (its \<noteq> [] \<longrightarrow>
      position (arrangeStaging its c ! 0) =
        (0, 0, if 15000 < length_dim (dimensions (its ! 0))
               then width_dim c + 1500 + 100 else width_dim c + 1500)) \<and>
   (\<forall>k. Suc k < length its \<longrightarrow>
      (if 15000 < pos_x (position (arrangeStaging its c ! k))
                    + (length_dim (dimensions (its ! k)) + 100)
                    + length_dim (dimensions (its ! Suc k))
       then pos_x (position (arrangeStaging its c ! Suc k)) = 0 \<and>
            pos_z (position (arrangeStaging its c ! Suc k))
              = pos_z (position (arrangeStaging its c ! k))
                + (max 0 (rowDepth (arrangeStaging its c) k) + 100)
       else pos_x (position (arrangeStaging its c ! Suc k))
              = pos_x (position (arrangeStaging its c ! k))
                + (length_dim (dimensions (its ! k)) + 100) \<and>
            pos_z (position (arrangeStaging its c ! Suc k))
              = pos_z (position (arrangeStaging its c ! k)))) \<and>
   ((\<forall>it \<in> set its. 0 \<le> width_dim (dimensions it)) \<longrightarrow>
      (\<forall>k<length its. 0 \<le> rowDepth (arrangeStaging its c) k)) \<and>
   ((\<forall>it \<in> set its. 0 \<le> length_dim (dimensions it)) \<longrightarrow>
      (\<forall>i j. i < length its \<longrightarrow> j < length its \<longrightarrow> i \<noteq> j \<longrightarrow>
         \<not> overlap (targetOf (arrangeStaging its c ! i)) (arrangeStaging its c ! j)))"
proof (intro conjI allI impI)
  show "length (arrangeStaging its c) = length its" by (rule length_arrangeStaging)
next
  fix k assume k: "k < length its"
  show "arrangeStaging its c ! k
        = (its ! k)\<lparr>position := position (arrangeStaging its c ! k), isValid := True\<rparr>"
    using k by (rule staging_item(1))
  then have "isValid (arrangeStaging its c ! k)
      = isValid ((its ! k)\<lparr>position := position (arrangeStaging its c ! k), isValid := True\<rparr>)"
    by simp
  then show "isValid (arrangeStaging its c ! k)" by simp
  show "pos_y (position (arrangeStaging its c ! k)) = 0" using k by (rule staging_item(2))
  show "width_dim c + 1500 \<le> pos_z (position (arrangeStaging its c ! k))"
    using k by (rule staging_item(3))
next
  assume "its \<noteq> []"
  then show "position (arrangeStaging its c ! 0) =
        (0, 0, if 15000 < length_dim (dimensions (its ! 0))
               then width_dim c + 1500 + 100 else width_dim c + 1500)"
    by (rule staging_first)
next
  fix k assume "Suc k < length its"
  then show "if 15000 < pos_x (position (arrangeStaging its c ! k))
                    + (length_dim (dimensions (its ! k)) + 100)
                    + length_dim (dimensions (its ! Suc k))
       then pos_x (position (arrangeStaging its c ! Suc k)) = 0 \<and>
            pos_z (position (arrangeStaging its c ! Suc k))
              = pos_z (position (arrangeStaging its c ! k))
                + (max 0 (rowDepth (arrangeStaging its c) k) + 100)
       else pos_x (position (arrangeStaging its c ! Suc k))
              = pos_x (position (arrangeStaging its c ! k))
                + (length_dim (dimensions (its ! k)) + 100) \<and>
            pos_z (position (arrangeStaging its c ! Suc k))
              = pos_z (position (arrangeStaging its c ! k))"
    using staging_next [of k its "arrangeStaging its c" c] by simp
next
  fix k assume "\<forall>it \<in> set its. 0 \<le> width_dim (dimensions it)" and k: "k < length its"
  then have "0 \<le> width_dim (dimensions (its ! k))" by simp
  then show "0 \<le> rowDepth (arrangeStaging its c) k"
    using rowDepth_ge [OF k, of c] by simp
next
  fix i j
  assume "\<forall>it \<in> set its. 0 \<le> length_dim (dimensions it)"
    and "i < length its" "j < length its" "i \<noteq> j"
  then show "\<not> overlap (targetOf (arrangeStaging its c ! i)) (arrangeStaging its c ! j)"
    using pairwise_no_overlap [OF arrangeStaging_disjoint, of its i c j]
    by (simp add: length_arrangeStaging)
qed

text \<open>
  Three beams of lengths 8000, 8000 and 1000 and footprint widths 500, 700 and 300
  beside the container of side 1000: the second beam does not fit the first row and
  opens a row 500 + 100 further; the third follows it at x = 8100.
\<close>

lemma staging_beams:
  "map position
     (arrangeStaging [beam ''p'' 8000 500, beam ''q'' 8000 700, beam ''r'' 1000 300]
        container1000)
     = [(0, 0, 2500), (0, 0, 3100), (8100, 0, 3100)]"
  by (simp add: arrangeStaging_def stagingZStart_def stagingWidthLimit_def spacing_def
      beam_def container1000_def)

theorem arrangeStaging_layout_witness:
  "map position
     (arrangeStaging [beam ''p'' 8000 500, beam ''q'' 8000 700, beam ''r'' 1000 300]
        container1000)
     = [(0, 0, 2500), (0, 0, 3100), (8100, 0, 3100)] \<and>
   \<not> overlap
       (targetOf (arrangeStaging [beam ''p'' 8000 500, beam ''q'' 8000 700, beam ''r'' 1000 300]
                    container1000 ! 1))
       (arrangeStaging [beam ''p'' 8000 500, beam ''q'' 8000 700, beam ''r'' 1000 300]
          container1000 ! 2)"
proof -
  let ?its = "[beam ''p'' 8000 500, beam ''q'' 8000 700, beam ''r'' 1000 300]"
  have "\<forall>it \<in> set ?its. 0 \<le> length_dim (dimensions it)"
    by (simp add: beam_def)
  moreover have "(1::nat) < length ?its" "(2::nat) < length ?its" "(1::nat) \<noteq> 2"
    by simp_all
  ultimately have "\<not> overlap (targetOf (arrangeStaging ?its container1000 ! 1))
      (arrangeStaging ?its container1000 ! 2)"
    using arrangeStaging_layout [of ?its container1000] by blast
  then show ?thesis using staging_beams by simp
qed

text \<open>
  Outside the data model: four beams, the first of a negative footprint width and the
  third of a negative length. The row of the first beam has the depth 0 and not its
  largest width, and the fourth beam is laid over the second.
\<close>

lemma staging_negative:
  "arrangeStaging [beam ''e'' 14000 (-50), beam ''f'' 14000 30, beam ''g'' (-20000) 30,
                   beam ''h'' 14000 30] container1000
     = [(beam ''e'' 14000 (-50))\<lparr>position := (0, 0, 2500), isValid := True\<rparr>,
        (beam ''f'' 14000 30)\<lparr>position := (0, 0, 2600), isValid := True\<rparr>,
        (beam ''g'' (-20000) 30)\<lparr>position := (14100, 0, 2600), isValid := True\<rparr>,
        (beam ''h'' 14000 30)\<lparr>position := (-5800, 0, 2600), isValid := True\<rparr>]"
  by (simp add: arrangeStaging_def stagingZStart_def stagingWidthLimit_def spacing_def
      beam_def container1000_def)

theorem arrangeStaging_negative_counterexample:
  "pos_z (position (arrangeStaging [beam ''e'' 14000 (-50), beam ''f'' 14000 30,
       beam ''g'' (-20000) 30, beam ''h'' 14000 30] container1000 ! 1))
     \<noteq> pos_z (position (arrangeStaging [beam ''e'' 14000 (-50), beam ''f'' 14000 30,
         beam ''g'' (-20000) 30, beam ''h'' 14000 30] container1000 ! 0))
       + (rowDepth (arrangeStaging [beam ''e'' 14000 (-50), beam ''f'' 14000 30,
            beam ''g'' (-20000) 30, beam ''h'' 14000 30] container1000) 0 + 100) \<and>
   overlap
     (targetOf (arrangeStaging [beam ''e'' 14000 (-50), beam ''f'' 14000 30,
        beam ''g'' (-20000) 30, beam ''h'' 14000 30] container1000 ! 3))
     (arrangeStaging [beam ''e'' 14000 (-50), beam ''f'' 14000 30,
        beam ''g'' (-20000) 30, beam ''h'' 14000 30] container1000 ! 1)"
  unfolding staging_negative
  by (simp add: rowDepth_def rowOf_def overlap_def targetOf_def epsilon_def beam_def
      pos_x_def pos_y_def pos_z_def)

section \<open>No two valid items overlap\<close>

subsection \<open>The invariant of the trial\<close>

lemma splitSpace_avoids_placed:
  assumes "f \<in> set (splitSpace p fs)"
  shows "\<not> boxIntersect f p"
  using assms by (auto simp: splitSpace_def boxIntersect_def split: if_splits)

lemma splitSpace_subbox:
  assumes "f \<in> set (splitSpace p fs)" "boxIntersect f q"
  shows "boxIntersect fs q"
  using assms by (auto simp: splitSpace_def boxIntersect_def split: if_splits)

lemma itemBox_newItemOf: "itemBox (newItemOf item space rot) = placedBoxOf item space rot"
  by (cases rot)
    (simp_all add: itemBox_def newItemOf_def placedBoxOf_def Let_def pos_x_def pos_y_def
      pos_z_def)

lemma isValid_newItemOf: "isValid (newItemOf item space rot)"
  by (simp add: newItemOf_def Let_def)

lemma placedBox_in_space:
  assumes "feasible item space rot" "boxIntersect (placedBoxOf item space rot) q"
  shows "boxIntersect space q"
  using assms by (cases rot) (auto simp: feasible_def placedBoxOf_def boxIntersect_def Let_def)

lemma placedBox_z:
  assumes "feasible item space rot" "withinContainer c space"
  shows "box_z (placedBoxOf item space rot) + box_w (placedBoxOf item space rot) \<le> width_dim c"
  using assms
  by (cases rot) (auto simp: feasible_def placedBoxOf_def withinContainer_def Let_def)

lemma trialInv_packItem:
  assumes inv: "trialInv c st"
  shows "trialInv c (packItem st item)"
proof (cases "findBestSpace item (freeSpaces st)")
  case None
  show ?thesis using inv by (simp add: packItem_None [OF None] trialInv_def)
next
  case (Some best)
  obtain i rot sc where best: "best = (i, rot, sc)" by (cases best)
  note found = Some [unfolded best]
  let ?space = "freeSpaces st ! i"
  let ?p = "placedBoxOf item ?space rot"
  let ?new = "newItemOf item ?space rot"
  have i: "i < length (freeSpaces st)" and feas: "feasible item ?space rot"
    using findBestSpace_fits [OF found] by simp_all
  have space: "?space \<in> set (freeSpaces st)" using i by simp
  have within: "withinContainer c ?space" using inv space by (simp add: trialInv_def)
  have free': "freeSpaces (packItem st item) = cleanupSpaces (splitSpaces (freeSpaces st) ?p)"
    and placed': "placedItems (packItem st item) = placedItems st @ [?new]"
    by (simp_all add: packItem_Some [OF found])
  have parent: "\<exists>fs \<in> set (freeSpaces st). f \<in> set (splitSpace ?p fs)"
    if "f \<in> set (freeSpaces (packItem st item))" for f
    using that set_cleanupSpaces [of "splitSpaces (freeSpaces st) ?p"]
    by (auto simp: free' in_splitSpaces)
  have 1: "\<forall>f \<in> set (freeSpaces (packItem st item)). withinContainer c f"
  proof
    fix f assume "f \<in> set (freeSpaces (packItem st item))"
    then obtain fs where fs: "fs \<in> set (freeSpaces st)" "f \<in> set (splitSpace ?p fs)"
      using parent by blast
    then have "withinContainer c fs" using inv by (simp add: trialInv_def)
    then show "withinContainer c f" using fs(2) by (rule splitSpace_within)
  qed
  have 2: "\<forall>f \<in> set (freeSpaces (packItem st item)).
      \<forall>it \<in> set (placedItems (packItem st item)).
        isValid it \<longrightarrow> \<not> boxIntersect f (itemBox it)"
  proof (intro ballI impI)
    fix f it
    assume f: "f \<in> set (freeSpaces (packItem st item))"
      and it: "it \<in> set (placedItems (packItem st item))" and v: "isValid it"
    obtain fs where fs: "fs \<in> set (freeSpaces st)" "f \<in> set (splitSpace ?p fs)"
      using parent [OF f] by blast
    show "\<not> boxIntersect f (itemBox it)"
    proof (cases "it = ?new")
      case True
      then show ?thesis
        using splitSpace_avoids_placed [OF fs(2)] by (simp add: itemBox_newItemOf)
    next
      case False
      then have "it \<in> set (placedItems st)" using it by (simp add: placed')
      then have "\<not> boxIntersect fs (itemBox it)" using inv fs(1) v by (simp add: trialInv_def)
      then show ?thesis using splitSpace_subbox [OF fs(2)] by blast
    qed
  qed
  have 3: "\<forall>it \<in> set (placedItems (packItem st item)).
        isValid it \<longrightarrow> pos_z (position it) + width_dim (dimensions it) \<le> width_dim c"
  proof -
    have "box_z (itemBox ?new) + box_w (itemBox ?new) \<le> width_dim c"
      using placedBox_z [OF feas within] by (simp add: itemBox_newItemOf)
    then have "pos_z (position ?new) + width_dim (dimensions ?new) \<le> width_dim c"
      by (simp add: itemBox_def)
    then show ?thesis using inv by (auto simp: placed' trialInv_def)
  qed
  have 4: "sorted_wrt (\<lambda>a b. \<not> boxIntersect (itemBox a) (itemBox b))
             (filter isValid (placedItems (packItem st item)))"
  proof -
    have "\<not> boxIntersect (itemBox a) (itemBox ?new)"
      if "a \<in> set (placedItems st)" "isValid a" for a
    proof
      assume "boxIntersect (itemBox a) (itemBox ?new)"
      then have "boxIntersect ?p (itemBox a)"
        using boxIntersect_sym by (simp add: itemBox_newItemOf)
      then have "boxIntersect ?space (itemBox a)" using placedBox_in_space [OF feas] by blast
      then show False using inv space that by (simp add: trialInv_def)
    qed
    then show ?thesis using inv
      by (simp add: placed' isValid_newItemOf sorted_wrt_append trialInv_def)
  qed
  show ?thesis using 1 2 3 4 by (simp add: trialInv_def)
qed

lemma trialInv_initial: "trialInv c (initialState c)"
  by (simp add: trialInv_def initialState_def withinContainer_def)

lemma trialInv_foldl: "trialInv c st \<Longrightarrow> trialInv c (foldl packItem st its)"
  by (induction its arbitrary: st) (simp_all add: trialInv_packItem)

lemma trialInv_packAll: "trialInv c (packAll c its)"
  by (simp add: packAll_def trialInv_foldl trialInv_initial)

subsection \<open>Failed items keep their dimensions\<close>

lemma failed_packItem:
  assumes "\<forall>it \<in> set (placedItems st). \<not> isValid it \<longrightarrow> P (dimensions it)"
    "P (dimensions item)"
  shows "\<forall>it \<in> set (placedItems (packItem st item)). \<not> isValid it \<longrightarrow> P (dimensions it)"
  using assms by (auto simp: packItem_def Let_def isValid_newItemOf split: option.splits)

lemma failed_foldl:
  "\<forall>it \<in> set (placedItems st). \<not> isValid it \<longrightarrow> P (dimensions it) \<Longrightarrow>
   \<forall>item \<in> set its. P (dimensions item) \<Longrightarrow>
   \<forall>it \<in> set (placedItems (foldl packItem st its)). \<not> isValid it \<longrightarrow> P (dimensions it)"
proof (induction its arbitrary: st)
  case Nil
  then show ?case by simp
next
  case (Cons a its)
  have "\<forall>it \<in> set (placedItems (packItem st a)). \<not> isValid it \<longrightarrow> P (dimensions it)"
    using Cons.prems by (intro failed_packItem) simp_all
  then show ?case using Cons.IH [of "packItem st a"] Cons.prems(2) by simp
qed

lemma failed_packAll:
  "\<forall>item \<in> set its. P (dimensions item) \<Longrightarrow>
   \<forall>it \<in> set (placedItems (packAll c its)). \<not> isValid it \<longrightarrow> P (dimensions it)"
  using failed_foldl [of "initialState c" P its] by (simp add: packAll_def initialState_def)

subsection \<open>Placed and staged items together\<close>

lemma autoPack_disjoint:
  assumes "\<forall>it \<in> set its. 0 \<le> length_dim (dimensions it)"
  shows "sorted_wrt (\<lambda>a b. \<not> boxIntersect (itemBox a) (itemBox b)) (autoPack its c)"
proof -
  obtain k where k: "k < 7" "autoPack its c =
        filter isValid (items (trialResults its c ! k))
        @ arrangeStaging (filter (\<lambda>i. \<not> isValid i) (items (trialResults its c ! k))) c"
    using autoPack_winner [of its c] by blast
  let ?order = "sortBy (compareItems (fst (trials ! k)) (snd (trials ! k))) its"
  let ?xs = "items (trialResults its c ! k)"
  let ?failed = "filter (\<lambda>i. \<not> isValid i) ?xs"
  have xs: "?xs = placedItems (packAll c ?order)"
    by (simp add: nth_trialResults [OF k(1)] runPackingTrial_def resultOf_def)
  have inv: "trialInv c (packAll c ?order)" by (rule trialInv_packAll)
  have success: "sorted_wrt (\<lambda>a b. \<not> boxIntersect (itemBox a) (itemBox b)) (filter isValid ?xs)"
    using inv by (simp add: xs trialInv_def)
  have inside: "\<forall>it \<in> set ?xs.
      isValid it \<longrightarrow> pos_z (position it) + width_dim (dimensions it) \<le> width_dim c"
    using inv by (simp add: xs trialInv_def)
  have "\<forall>item \<in> set ?order. 0 \<le> length_dim (dimensions item)"
    using assms by (simp add: set_sortBy)
  then have "\<forall>it \<in> set ?xs. \<not> isValid it \<longrightarrow> 0 \<le> length_dim (dimensions it)"
    unfolding xs by (rule failed_packAll)
  then have "\<forall>it \<in> set ?failed. 0 \<le> length_dim (dimensions it)" by simp
  then have staged: "sorted_wrt (\<lambda>a b. \<not> boxIntersect (itemBox a) (itemBox b))
      (arrangeStaging ?failed c)"
    by (rule arrangeStaging_disjoint)
  have cross: "\<not> boxIntersect (itemBox a) (itemBox b)"
    if a: "a \<in> set (filter isValid ?xs)" and b: "b \<in> set (arrangeStaging ?failed c)" for a b
  proof -
    obtain m where m: "m < length ?failed" "b = arrangeStaging ?failed c ! m"
      using b by (auto simp: in_set_conv_nth length_arrangeStaging)
    have "width_dim c + 1500 \<le> pos_z (position b)"
      using staging_item(3) [OF m(1), of c] by (simp add: m(2))
    moreover have "pos_z (position a) + width_dim (dimensions a) \<le> width_dim c"
      using a inside by simp
    ultimately show ?thesis by (simp add: boxIntersect_def itemBox_def)
  qed
  show ?thesis
    unfolding k(2) using success staged cross by (simp add: sorted_wrt_append)
qed

text \<open>
  Claim C1, for items of no negative length. In the list \<^verbatim>\<open>autoPack\<close> returns, no item
  flagged valid overlaps another item flagged valid by more than the tolerance of 1 on
  all three axes (the overlap test of the collision detector); faces may touch. The
  data model asks for positive dimensions; with a negative length the staging loop
  steps backwards, and the claim fails (see the slabs at the end of this section).
\<close>

theorem autoPack_valid_items_disjoint:
  assumes "\<forall>it \<in> set its. 0 \<le> length_dim (dimensions it)"
  shows "\<forall>i j. i < length (autoPack its c) \<longrightarrow> j < length (autoPack its c) \<longrightarrow> i \<noteq> j \<longrightarrow>
           isValid (autoPack its c ! i) \<longrightarrow> isValid (autoPack its c ! j) \<longrightarrow>
           \<not> overlap (targetOf (autoPack its c ! i)) (autoPack its c ! j)"
  using pairwise_no_overlap [OF autoPack_disjoint [OF assms]] by blast

text \<open>
  Of the two cubes the first is placed at the origin and the second is staged beside
  the container; both are flagged valid and they do not overlap.
\<close>

theorem autoPack_valid_items_disjoint_witness:
  "isValid (autoPack [cube600 ''a'', cube600 ''b''] container1000 ! 0) \<and>
   isValid (autoPack [cube600 ''a'', cube600 ''b''] container1000 ! 1) \<and>
   \<not> overlap (targetOf (autoPack [cube600 ''a'', cube600 ''b''] container1000 ! 0))
       (autoPack [cube600 ''a'', cube600 ''b''] container1000 ! 1)"
proof -
  let ?its = "[cube600 ''a'', cube600 ''b'']"
  let ?out = "autoPack ?its container1000"
  have pre: "\<forall>it \<in> set ?its. 0 \<le> length_dim (dimensions it)"
    by (simp add: cube600_def)
  have len: "0 < length ?out" "1 < length ?out" "(0::nat) \<noteq> 1"
    by (simp_all add: autoPack_example)
  have valid: "isValid (?out ! 0)" "isValid (?out ! 1)"
    by (simp_all add: autoPack_example)
  have "\<not> overlap (targetOf (?out ! 0)) (?out ! 1)"
    using autoPack_valid_items_disjoint [OF pre, of container1000] len valid by blast
  then show ?thesis using valid by simp
qed

subsection \<open>Items that fit nowhere\<close>

text \<open>
  When every item is higher than the container, every trial fails every item and packs
  a volume of 0; the first trial wins, and all items are staged in its order.
\<close>

lemma findBestSpace_too_tall:
  assumes "height_dim c < height_dim (dimensions item)"
  shows "findBestSpace item (freeSpaces (initialState c)) = None"
  using assms
  by (simp add: findBestSpace_def initialState_def tryNormal_def tryRotated_def
      fitsNormal_def fitsRotated_def)

lemma foldl_packItem_too_tall:
  assumes "\<forall>it \<in> set xs. height_dim c < height_dim (dimensions it)"
    and "freeSpaces st = freeSpaces (initialState c)"
  shows "foldl packItem st xs = st\<lparr>placedItems := placedItems st @ map failedCopy xs\<rparr>"
  using assms
proof (induction xs arbitrary: st)
  case Nil
  show ?case by simp
next
  case (Cons a xs)
  have "findBestSpace a (freeSpaces st) = None"
    using Cons.prems by (simp add: findBestSpace_too_tall)
  then have step: "packItem st a = st\<lparr>placedItems := placedItems st @ [failedCopy a]\<rparr>"
    by (simp add: packItem_None failedCopy_def)
  have "foldl packItem (packItem st a) xs
      = (packItem st a)\<lparr>placedItems := placedItems (packItem st a) @ map failedCopy xs\<rparr>"
    using Cons.prems by (intro Cons.IH) (simp_all add: step)
  then show ?case by (simp add: step)
qed

lemma packAll_too_tall:
  assumes "\<forall>it \<in> set xs. height_dim c < height_dim (dimensions it)"
  shows "packAll c xs = (initialState c)\<lparr>placedItems := map failedCopy xs\<rparr>"
  using foldl_packItem_too_tall [OF assms, of "initialState c"]
  by (simp add: packAll_def initialState_def)

lemma filter_failed:
  "filter isValid (map failedCopy xs) = [] \<and>
   filter (\<lambda>i. \<not> isValid i) (map failedCopy xs) = map failedCopy xs"
  by (induction xs) (simp_all add: failedCopy_def)

lemma trial_too_tall:
  assumes "\<forall>it \<in> set its. height_dim c < height_dim (dimensions it)"
  shows "runPackingTrial its c s seed =
     \<lparr>items = map failedCopy (sortBy (compareItems s seed) its),
      packedVolume = 0, packedCount = 0\<rparr>"
proof -
  have "\<forall>it \<in> set (sortBy (compareItems s seed) its). height_dim c < height_dim (dimensions it)"
    using assms by (simp add: set_sortBy)
  from packAll_too_tall [OF this] show ?thesis
    by (simp add: runPackingTrial_def resultOf_def initialState_def filter_failed)
qed

lemma autoPack_too_tall:
  assumes "\<forall>it \<in> set its. height_dim c < height_dim (dimensions it)"
  shows "autoPack its c
           = arrangeStaging (map failedCopy (sortBy (compareItems VOLUME 0) its)) c"
  by (simp add: autoPack_def trialResults_def trials_def trial_too_tall [OF assms]
      selectBest_def keepBest_def filter_failed)

text \<open>
  Three slabs; the second has a negative length and a negative footprint width. The
  staging loop steps back by the negative length and lays the third slab over the first.
\<close>

lemma sort_slabs:
  "sortBy (compareItems VOLUME 0) [slab ''s1'' 1000 20, slab ''s2'' (-2000) (-5), slab ''s3'' 1000 2]
     = [slab ''s1'' 1000 20, slab ''s2'' (-2000) (-5), slab ''s3'' 1000 2]"
  by (simp add: sortBy_def compareItems_def volume_def slab_def Let_def)

lemma autoPack_slabs:
  "autoPack [slab ''s1'' 1000 20, slab ''s2'' (-2000) (-5), slab ''s3'' 1000 2] container1000
     = [(slab ''s1'' 1000 20)\<lparr>position := (0, 0, 2500), isValid := True\<rparr>,
        (slab ''s2'' (-2000) (-5))\<lparr>position := (1100, 0, 2500), isValid := True\<rparr>,
        (slab ''s3'' 1000 2)\<lparr>position := (-800, 0, 2500), isValid := True\<rparr>]"
proof -
  have "\<forall>it \<in> set [slab ''s1'' 1000 20, slab ''s2'' (-2000) (-5), slab ''s3'' 1000 2].
      height_dim container1000 < height_dim (dimensions it)"
    by (simp add: slab_def container1000_def)
  from autoPack_too_tall [OF this] show ?thesis
    unfolding sort_slabs
    by (simp add: arrangeStaging_def stagingZStart_def stagingWidthLimit_def spacing_def
        failedCopy_def slab_def container1000_def)
qed

theorem autoPack_negative_length_counterexample:
  "length (autoPack [slab ''s1'' 1000 20, slab ''s2'' (-2000) (-5), slab ''s3'' 1000 2]
             container1000) = 3 \<and>
   isValid (autoPack [slab ''s1'' 1000 20, slab ''s2'' (-2000) (-5), slab ''s3'' 1000 2]
              container1000 ! 2) \<and>
   isValid (autoPack [slab ''s1'' 1000 20, slab ''s2'' (-2000) (-5), slab ''s3'' 1000 2]
              container1000 ! 0) \<and>
   overlap
     (targetOf (autoPack [slab ''s1'' 1000 20, slab ''s2'' (-2000) (-5), slab ''s3'' 1000 2]
                  container1000 ! 2))
     (autoPack [slab ''s1'' 1000 20, slab ''s2'' (-2000) (-5), slab ''s3'' 1000 2]
        container1000 ! 0)"
  unfolding autoPack_slabs
  by (simp add: overlap_def targetOf_def epsilon_def slab_def pos_x_def pos_y_def pos_z_def)

section \<open>Every item is placed or staged\<close>

lemma placedBox_within:
  assumes "feasible item space rot" "withinContainer c space"
  shows "withinContainer c (placedBoxOf item space rot)"
  using assms
  by (cases rot) (auto simp: feasible_def placedBoxOf_def withinContainer_def Let_def)

lemma placedWithin_packItem:
  assumes inv: "trialInv c st"
    and placed: "\<forall>it \<in> set (placedItems st). isValid it \<longrightarrow> withinContainer c (itemBox it)"
  shows "\<forall>it \<in> set (placedItems (packItem st item)).
           isValid it \<longrightarrow> withinContainer c (itemBox it)"
proof (cases "findBestSpace item (freeSpaces st)")
  case None
  show ?thesis using placed by (simp add: packItem_None [OF None])
next
  case (Some best)
  obtain i rot sc where best: "best = (i, rot, sc)" by (cases best)
  note found = Some [unfolded best]
  have i: "i < length (freeSpaces st)" and feas: "feasible item (freeSpaces st ! i) rot"
    using findBestSpace_fits [OF found] by simp_all
  have "withinContainer c (freeSpaces st ! i)" using inv i by (simp add: trialInv_def)
  then have "withinContainer c (itemBox (newItemOf item (freeSpaces st ! i) rot))"
    using placedBox_within [OF feas] by (simp add: itemBox_newItemOf)
  then show ?thesis using placed by (auto simp: packItem_Some [OF found])
qed

lemma placedWithin_foldl:
  "trialInv c st \<Longrightarrow>
   \<forall>it \<in> set (placedItems st). isValid it \<longrightarrow> withinContainer c (itemBox it) \<Longrightarrow>
   \<forall>it \<in> set (placedItems (foldl packItem st its)).
      isValid it \<longrightarrow> withinContainer c (itemBox it)"
proof (induction its arbitrary: st)
  case Nil
  then show ?case by simp
next
  case (Cons a its)
  have "trialInv c (packItem st a)" using Cons.prems(1) by (rule trialInv_packItem)
  moreover have "\<forall>it \<in> set (placedItems (packItem st a)).
      isValid it \<longrightarrow> withinContainer c (itemBox it)"
    using Cons.prems by (rule placedWithin_packItem)
  ultimately show ?case using Cons.IH by simp
qed

lemma placedWithin_trial:
  "\<forall>it \<in> set (filter isValid (items (runPackingTrial its c strategy seed))).
     withinContainer c (itemBox it)"
  using placedWithin_foldl [OF trialInv_initial, of c "sortBy (compareItems strategy seed) its"]
  by (simp add: runPackingTrial_def resultOf_def packAll_def initialState_def)

lemma staged_outside:
  assumes "out \<in> set (arrangeStaging xs c)"
  shows "isValid out \<and> pos_y (position out) = 0 \<and> width_dim c + 1500 \<le> pos_z (position out)"
proof -
  obtain m where m: "m < length xs" "out = arrangeStaging xs c ! m"
    using assms by (auto simp: in_set_conv_nth length_arrangeStaging)
  have "isValid (arrangeStaging xs c ! m)
      = isValid ((xs ! m)\<lparr>position := position (arrangeStaging xs c ! m), isValid := True\<rparr>)"
    using staging_item(1) [OF m(1), of c] by simp
  then have "isValid out" by (simp add: m(2))
  then show ?thesis
    using staging_item(2) [OF m(1), of c] staging_item(3) [OF m(1), of c] by (simp add: m(2))
qed

text \<open>
  Claim C2. The list \<^verbatim>\<open>autoPack\<close> returns is as long as its input, and it holds the
  items of the input, each as often as the input does, when position, validity flag and
  rotation of the footprint are set aside: no item is dropped and none is duplicated.
  It is the list of the valid items of the winning trial, which are placed inside the
  container, followed by the list the staging arranger makes of the invalid items of
  that trial, which stand on the floor at least 1500 beyond the far z-face of the
  container. Every item of the output is flagged valid and is one or the other.
\<close>

theorem autoPack_keeps_items:
  "length (autoPack its container) = length its \<and>
   mset (map cargoOf (autoPack its container)) = mset (map cargoOf its) \<and>
   (\<exists>k<7.
      (\<forall>j<k. packedVolume (trialResults its container ! j)
               < packedVolume (trialResults its container ! k)) \<and>
      (\<forall>j<7. packedVolume (trialResults its container ! j)
               \<le> packedVolume (trialResults its container ! k)) \<and>
      autoPack its container =
        filter isValid (items (trialResults its container ! k))
        @ arrangeStaging (filter (\<lambda>i. \<not> isValid i) (items (trialResults its container ! k)))
            container \<and>
      (\<forall>out \<in> set (autoPack its container).
         out \<in> set (filter isValid (items (trialResults its container ! k))) \<or>
         out \<in> set (arrangeStaging
                      (filter (\<lambda>i. \<not> isValid i) (items (trialResults its container ! k)))
                      container)) \<and>
      (\<forall>out \<in> set (filter isValid (items (trialResults its container ! k))).
         isValid out \<and> withinContainer container (itemBox out)) \<and>
      (\<forall>out \<in> set (arrangeStaging
                       (filter (\<lambda>i. \<not> isValid i) (items (trialResults its container ! k)))
                       container).
         isValid out \<and> pos_y (position out) = 0 \<and>
         width_dim container + 1500 \<le> pos_z (position out))) \<and>
   (\<forall>out \<in> set (autoPack its container).
      isValid out \<and>
      (withinContainer container (itemBox out) \<or>
       pos_y (position out) = 0 \<and> width_dim container + 1500 \<le> pos_z (position out)))"
proof -
  have "size (mset (map cargoOf (autoPack its container))) = size (mset (map cargoOf its))"
    by (simp only: autoPack_cargo)
  then have len: "length (autoPack its container) = length its" by simp
  obtain k where k: "k < 7"
    "\<forall>j<7. packedVolume (trialResults its container ! j)
             \<le> packedVolume (trialResults its container ! k)"
    "\<forall>j<k. packedVolume (trialResults its container ! j)
             < packedVolume (trialResults its container ! k)"
    "autoPack its container =
        filter isValid (items (trialResults its container ! k))
        @ arrangeStaging (filter (\<lambda>i. \<not> isValid i) (items (trialResults its container ! k)))
            container"
    using autoPack_winner [of its container] by blast
  let ?success = "filter isValid (items (trialResults its container ! k))"
  let ?staged = "arrangeStaging
      (filter (\<lambda>i. \<not> isValid i) (items (trialResults its container ! k))) container"
  have split: "\<forall>out \<in> set (autoPack its container). out \<in> set ?success \<or> out \<in> set ?staged"
    by (subst k(4)) simp
  have placed: "\<forall>out \<in> set ?success. isValid out \<and> withinContainer container (itemBox out)"
    using placedWithin_trial [of its container "fst (trials ! k)" "snd (trials ! k)"]
    by (simp add: nth_trialResults [OF k(1)])
  have staged: "\<forall>out \<in> set ?staged. isValid out \<and> pos_y (position out) = 0 \<and>
      width_dim container + 1500 \<le> pos_z (position out)"
    using staged_outside by blast
  have every: "\<forall>out \<in> set (autoPack its container).
      isValid out \<and>
      (withinContainer container (itemBox out) \<or>
       pos_y (position out) = 0 \<and> width_dim container + 1500 \<le> pos_z (position out))"
    using split placed staged by blast
  have "\<exists>k<7.
      (\<forall>j<k. packedVolume (trialResults its container ! j)
               < packedVolume (trialResults its container ! k)) \<and>
      (\<forall>j<7. packedVolume (trialResults its container ! j)
               \<le> packedVolume (trialResults its container ! k)) \<and>
      autoPack its container =
        filter isValid (items (trialResults its container ! k))
        @ arrangeStaging (filter (\<lambda>i. \<not> isValid i) (items (trialResults its container ! k)))
            container \<and>
      (\<forall>out \<in> set (autoPack its container).
         out \<in> set (filter isValid (items (trialResults its container ! k))) \<or>
         out \<in> set (arrangeStaging
                      (filter (\<lambda>i. \<not> isValid i) (items (trialResults its container ! k)))
                      container)) \<and>
      (\<forall>out \<in> set (filter isValid (items (trialResults its container ! k))).
         isValid out \<and> withinContainer container (itemBox out)) \<and>
      (\<forall>out \<in> set (arrangeStaging
                       (filter (\<lambda>i. \<not> isValid i) (items (trialResults its container ! k)))
                       container).
         isValid out \<and> pos_y (position out) = 0 \<and>
         width_dim container + 1500 \<le> pos_z (position out))"
    using k split placed staged by blast
  then show ?thesis using len autoPack_cargo [of its container] every by blast
qed

text \<open>
  Of the two cubes of the example the first is placed at the origin, inside the
  container, and the second, which no free space takes, is staged on the floor at
  z = 2500; the output has the two items, both flagged valid.
\<close>

theorem autoPack_keeps_items_witness:
  "length (autoPack [cube600 ''a'', cube600 ''b''] container1000) = 2 \<and>
   isValid (autoPack [cube600 ''a'', cube600 ''b''] container1000 ! 0) \<and>
   withinContainer container1000
     (itemBox (autoPack [cube600 ''a'', cube600 ''b''] container1000 ! 0)) \<and>
   isValid (autoPack [cube600 ''a'', cube600 ''b''] container1000 ! 1) \<and>
   position (autoPack [cube600 ''a'', cube600 ''b''] container1000 ! 1) = (0, 0, 2500)"
proof -
  let ?out = "autoPack [cube600 ''a'', cube600 ''b''] container1000"
  note c2 = autoPack_keeps_items [of "[cube600 ''a'', cube600 ''b'']" container1000]
  have len: "length ?out = 2" using c2 by simp
  have every: "\<forall>out \<in> set ?out. isValid out" using c2 by blast
  have "?out ! 0 \<in> set ?out" "?out ! 1 \<in> set ?out" using len by simp_all
  then have valid: "isValid (?out ! 0)" "isValid (?out ! 1)" using every by blast+
  have "withinContainer container1000 (itemBox (?out ! 0))"
    unfolding autoPack_example
    by (simp add: withinContainer_def itemBox_def cube600_def container1000_def
        pos_x_def pos_y_def pos_z_def)
  moreover have "position (?out ! 1) = (0, 0, 2500)"
    by (simp add: autoPack_example)
  ultimately show ?thesis using len valid by simp
qed

end
